theory Spec2Isabelle
  imports
    Complex_Main
    "HOL-Library.AList"
    "HOL-Library.Product_Lexorder"
    "HOL-Library.List_Lexorder"
    "HOL-Library.Char_ord"
begin

section \<open>Conventions of the embedding\<close>

text \<open>
  The layout engine of Canvas-MCP (\<^verbatim>\<open>src/canvas_mcp/models.py\<close> and
  \<^verbatim>\<open>src/canvas_mcp/organize.py\<close>) is embedded function by function.

  \<^item> Python \<^verbatim>\<open>float\<close> coordinates and sizes are modelled as \<^typ>\<open>real\<close>: every
    value is finite, so \<^verbatim>\<open>math.isfinite\<close> is constantly true and arithmetic is exact.
    Python \<^verbatim>\<open>int\<close> is \<^typ>\<open>int\<close>.
  \<^item> A Python \<^verbatim>\<open>dict\<close> is an association list in insertion order: a lookup is
    \<^const>\<open>map_of\<close>, a store is \<^const>\<open>AList.update\<close> (an existing key keeps its place, a
    new key goes to the end), exactly the iteration order of a Python dict.
  \<^item> \<^verbatim>\<open>sorted\<close> and \<^verbatim>\<open>list.sort\<close> are stable, as is \<^const>\<open>sort_key\<close>; tuples and
    strings compare lexicographically.
  \<^item> An exception is a value: functions that can raise return \<open>error + 'a\<close>.
  \<^item> Record fields carry a prefix (\<open>n_\<close> for a node, \<open>it_\<close> for an organize item, and
    so on) because \<open>id\<close>, \<open>x\<close> and \<open>y\<close> cannot be field names.
\<close>

datatype error = KeyError | ZeroDivisionError

type_synonym ('k, 'v) dict = "('k \<times> 'v) list"

definition dict_of :: "('k \<times> 'v) list \<Rightarrow> ('k, 'v) dict" where
  "dict_of kvs = fold (\<lambda>kv d. AList.update (fst kv) (snd kv) d) kvs []"

definition dict_get_or :: "('k, 'v) dict \<Rightarrow> 'k \<Rightarrow> 'v \<Rightarrow> 'v" where
  "dict_get_or d k dflt = (case map_of d k of None \<Rightarrow> dflt | Some v \<Rightarrow> v)"

definition has_key :: "('k, 'v) dict \<Rightarrow> 'k \<Rightarrow> bool" where
  "has_key d k = (map_of d k \<noteq> None)"

text \<open>Python's \<^verbatim>\<open>round\<close> on a float: to the nearest integer, a tie to the even one.\<close>

definition py_round :: "real \<Rightarrow> int" where
  "py_round v =
     (let f = \<lfloor>v\<rfloor>; d = v - of_int f
      in if d < 1 / 2 then f
         else if 1 / 2 < d then f + 1
         else if even f then f else f + 1)"

section \<open>The data model (models.py)\<close>

record NodeStyle =
  border_color :: string
  fill_color :: string
  text_color :: string
  label_color :: "string option"
  icon :: string
  corner_radius :: int
  border_width :: int

record CanvasNode =
  n_id :: string
  n_type :: string
  n_content :: string
  n_label :: "string option"
  n_x :: real
  n_y :: real
  n_width :: real
  n_height :: real
  n_inputs :: "string list"
  n_outputs :: "string list"
  n_style :: "NodeStyle option"

record CanvasMachine =
  m_id :: string
  m_label :: "string option"
  m_description :: "string option"
  m_nodes :: "CanvasNode list"

record CanvasFactory =
  f_id :: string
  f_label :: "string option"
  f_description :: "string option"
  f_machines :: "CanvasMachine list"

record CanvasNetwork =
  nw_id :: string
  nw_label :: "string option"
  nw_description :: "string option"
  nw_factories :: "CanvasFactory list"

record Canvas =
  c_title :: string
  c_theme :: string
  c_networks :: "CanvasNetwork list"

text \<open>
  \<^verbatim>\<open>return self.label if self.label else self.id\<close>: \<^verbatim>\<open>None\<close> and the empty
  string are both falsy.
\<close>

definition label_or_id :: "string option \<Rightarrow> string \<Rightarrow> string" where
  "label_or_id lbl ident =
     (case lbl of None \<Rightarrow> ident | Some l \<Rightarrow> if l \<noteq> [] then l else ident)"

definition node_get_label :: "CanvasNode \<Rightarrow> string" where
  "node_get_label n = label_or_id (n_label n) (n_id n)"

definition machine_get_label :: "CanvasMachine \<Rightarrow> string" where
  "machine_get_label m = label_or_id (m_label m) (m_id m)"

definition factory_get_label :: "CanvasFactory \<Rightarrow> string" where
  "factory_get_label f = label_or_id (f_label f) (f_id f)"

definition network_get_label :: "CanvasNetwork \<Rightarrow> string" where
  "network_get_label nw = label_or_id (nw_label nw) (nw_id nw)"

definition machine_all_nodes :: "CanvasMachine list \<Rightarrow> CanvasNode list" where
  "machine_all_nodes ms = concat (map m_nodes ms)"

definition factory_all_nodes :: "CanvasFactory list \<Rightarrow> CanvasNode list" where
  "factory_all_nodes fs = machine_all_nodes (concat (map f_machines fs))"

definition network_all_nodes :: "CanvasNetwork list \<Rightarrow> CanvasNode list" where
  "network_all_nodes nws = factory_all_nodes (concat (map nw_factories nws))"

definition all_nodes :: "Canvas \<Rightarrow> CanvasNode list" where
  "all_nodes c = network_all_nodes (c_networks c)"

text \<open>
  \<^verbatim>\<open>all_connections\<close> collects \<open>(input, node)\<close> and \<open>(node, output)\<close> pairs and returns
  \<^verbatim>\<open>list(set(connections))\<close>. The order in which a Python set of string pairs is
  listed depends on the interpreter's string hashing, so the listing is a parameter
  \<open>ord\<close> of the model; \<^const>\<open>remdups\<close> is one such listing.
\<close>

definition node_connections :: "CanvasNode \<Rightarrow> (string \<times> string) list" where
  "node_connections n =
     map (\<lambda>i. (i, n_id n)) (n_inputs n) @ map (\<lambda>out. (n_id n, out)) (n_outputs n)"

definition all_connections ::
  "((string \<times> string) list \<Rightarrow> (string \<times> string) list) \<Rightarrow> Canvas \<Rightarrow> (string \<times> string) list"
where
  "all_connections ord c = ord (concat (map node_connections (all_nodes c)))"

section \<open>The connector sampler and the intersection test (organize.py)\<close>

record BezierSegment =
  pt_x :: real
  pt_y :: real

definition CONNECTOR_CLEARANCE :: real where "CONNECTOR_CLEARANCE = 20"
definition MAX_NUDGE_ITERATIONS :: nat where "MAX_NUDGE_ITERATIONS = 6"
definition NODE_BBOX_MARGIN :: real where "NODE_BBOX_MARGIN = - 8"
definition MAX_NUDGE_DISPLACEMENT :: real where "MAX_NUDGE_DISPLACEMENT = 400"

text \<open>Port selection: the anchors \<open>(sx, sy)\<close>, \<open>(ex, ey)\<close> and whether the connector is vertical.\<close>

definition select_ports :: "CanvasNode \<Rightarrow> CanvasNode \<Rightarrow> (real \<times> real) \<times> (real \<times> real) \<times> bool" where
  "select_ports src dst =
     (let src_cx = n_x src + n_width src / 2;
          src_cy = n_y src + n_height src / 2;
          tgt_cx = n_x dst + n_width dst / 2;
          tgt_cy = n_y dst + n_height dst / 2;
          dx = tgt_cx - src_cx;
          dy = tgt_cy - src_cy;
          horizon = n_height src * 1.5
      in if \<bar>dy\<bar> > horizon \<and> \<bar>dy\<bar> > \<bar>dx\<bar> then
           (if dy > 0
            then ((n_x src + n_width src / 2, n_y src + n_height src),
                  (n_x dst + n_width dst / 2, n_y dst), True)
            else ((n_x src + n_width src / 2, n_y src),
                  (n_x dst + n_width dst / 2, n_y dst + n_height dst), True))
         else
           (if dx \<ge> 0
            then ((n_x src + n_width src, n_y src + n_height src / 2),
                  (n_x dst, n_y dst + n_height dst / 2), False)
            else ((n_x src, n_y src + n_height src / 2),
                  (n_x dst + n_width dst, n_y dst + n_height dst / 2), False)))"

definition control_points ::
  "(real \<times> real) \<Rightarrow> (real \<times> real) \<Rightarrow> bool \<Rightarrow> (real \<times> real) \<times> (real \<times> real)" where
  "control_points s e vertical =
     (let sx = fst s; sy = snd s; ex = fst e; ey = snd e
      in if vertical then
           (let cp_offset = max (\<bar>ey - sy\<bar> * 0.4) 40
            in ((sx, sy + (if ey > sy then cp_offset else - cp_offset)),
                (ex, ey - (if ey > sy then cp_offset else - cp_offset))))
         else
           (let cp_offset = max (\<bar>ex - sx\<bar> * 0.4) 40
            in ((sx + (if ex > sx then cp_offset else - cp_offset), sy),
                (ex - (if ex > sx then cp_offset else - cp_offset), ey))))"

definition bezier_point ::
  "(real \<times> real) \<Rightarrow> (real \<times> real) \<Rightarrow> (real \<times> real) \<Rightarrow> (real \<times> real) \<Rightarrow> real \<Rightarrow> BezierSegment"
where
  "bezier_point s cp1 cp2 e t =
     \<lparr>pt_x = (1 - t) ^ 3 * fst s + 3 * (1 - t) ^ 2 * t * fst cp1
              + 3 * (1 - t) * t ^ 2 * fst cp2 + t ^ 3 * fst e,
      pt_y = (1 - t) ^ 3 * snd s + 3 * (1 - t) ^ 2 * t * snd cp1
              + 3 * (1 - t) * t ^ 2 * snd cp2 + t ^ 3 * snd e\<rparr>"

text \<open>
  The body of the sampling loop, \<^verbatim>\<open>for i in range(steps + 1): t = i / steps\<close>, for a
  non-zero \<open>steps\<close> (a negative \<open>steps\<close> gives an empty range).
\<close>

definition sample_points :: "CanvasNode \<Rightarrow> CanvasNode \<Rightarrow> int \<Rightarrow> BezierSegment list" where
  "sample_points src dst steps =
     (case select_ports src dst of (s, e, vertical) \<Rightarrow>
        (case control_points s e vertical of (cp1, cp2) \<Rightarrow>
           map (\<lambda>i. bezier_point s cp1 cp2 e (of_int i / of_int steps)) [0..steps]))"

text \<open>With \<open>steps = 0\<close> the first division \<^verbatim>\<open>0 / 0\<close> raises.\<close>

definition sample_bezier_path :: "CanvasNode \<Rightarrow> CanvasNode \<Rightarrow> int \<Rightarrow> error + BezierSegment list" where
  "sample_bezier_path src dst steps =
     (if steps = 0 then Inl ZeroDivisionError else Inr (sample_points src dst steps))"

fun any_point_inside :: "real \<Rightarrow> real \<Rightarrow> real \<Rightarrow> real \<Rightarrow> BezierSegment list \<Rightarrow> bool" where
  "any_point_inside x1 y1 x2 y2 [] = False"
| "any_point_inside x1 y1 x2 y2 (pt # path) =
     (if x1 \<le> pt_x pt \<and> pt_x pt \<le> x2 \<and> y1 \<le> pt_y pt \<and> pt_y pt \<le> y2 then True
      else any_point_inside x1 y1 x2 y2 path)"

definition node_intersects_path :: "CanvasNode \<Rightarrow> BezierSegment list \<Rightarrow> real \<Rightarrow> bool" where
  "node_intersects_path node path margin =
     (let x1 = n_x node + margin;
          y1 = n_y node + margin;
          x2 = n_x node + n_width node - margin;
          y2 = n_y node + n_height node - margin
      in any_point_inside x1 y1 x2 y2 path)"

section \<open>The flat placer (compute_organized_layout)\<close>

record OrganizeItem =
  it_id :: string
  it_type :: string
  it_width :: real
  it_height :: real
  it_x :: real
  it_y :: real
  it_node_ids :: "string list"

record OrganizeEdge =
  from_id :: string
  to_id :: string

record OrganizeOptions =
  orientation :: string
  horizontal_spacing :: real
  vertical_spacing :: real
  start_x :: real
  start_y :: real
  reference_center_x :: real
  reference_center_y :: real
  grid_columns :: int

record LayoutPosition =
  pos_x :: real
  pos_y :: real

record ContainerBounds =
  b_x :: real
  b_y :: real
  b_width :: real
  b_height :: real

definition NODE_HORIZONTAL_SPACING :: real where "NODE_HORIZONTAL_SPACING = 90"
definition NODE_VERTICAL_SPACING :: real where "NODE_VERTICAL_SPACING = 140"
definition CONTAINER_HORIZONTAL_SPACING :: real where "CONTAINER_HORIZONTAL_SPACING = 200"
definition CONTAINER_VERTICAL_SPACING :: real where "CONTAINER_VERTICAL_SPACING = 240"
definition NETWORK_HORIZONTAL_SPACING :: real where "NETWORK_HORIZONTAL_SPACING = 260"
definition NETWORK_VERTICAL_SPACING :: real where "NETWORK_VERTICAL_SPACING = 320"
definition MACHINE_PADDING :: real where "MACHINE_PADDING = 55"
definition FACTORY_PADDING :: real where "FACTORY_PADDING = 75"
definition NETWORK_PADDING :: real where "NETWORK_PADDING = 100"
definition GRID_COLUMNS_NODE :: int where "GRID_COLUMNS_NODE = 4"
definition GRID_COLUMNS_CONTAINER :: int where "GRID_COLUMNS_CONTAINER = 3"
definition INTER_NETWORK_HORIZONTAL_SPACING :: real where "INTER_NETWORK_HORIZONTAL_SPACING = 320"
definition INTER_NETWORK_VERTICAL_SPACING :: real where "INTER_NETWORK_VERTICAL_SPACING = 380"

definition default_options :: OrganizeOptions where
  "default_options =
     \<lparr>orientation = ''horizontal'',
      horizontal_spacing = NODE_HORIZONTAL_SPACING,
      vertical_spacing = NODE_VERTICAL_SPACING,
      start_x = 0, start_y = 0,
      reference_center_x = 0, reference_center_y = 0,
      grid_columns = GRID_COLUMNS_NODE\<rparr>"

subsection \<open>Step 1: adjacency and in-degree\<close>

type_synonym adjacency = "(string, string list) dict"
type_synonym levels = "(string, int) dict"

definition add_edge :: "OrganizeEdge \<Rightarrow> adjacency \<times> levels \<Rightarrow> adjacency \<times> levels" where
  "add_edge edge g =
     (if has_key (fst g) (from_id edge) \<and> has_key (snd g) (to_id edge)
      then (AList.update (from_id edge) (dict_get_or (fst g) (from_id edge) [] @ [to_id edge]) (fst g),
            AList.update (to_id edge) (dict_get_or (snd g) (to_id edge) 0 + 1) (snd g))
      else g)"

definition build_graph :: "OrganizeItem list \<Rightarrow> OrganizeEdge list \<Rightarrow> adjacency \<times> levels" where
  "build_graph items edges =
     fold add_edge edges
       (dict_of (map (\<lambda>item. (it_id item, [])) items),
        dict_of (map (\<lambda>item. (it_id item, 0)) items))"

subsection \<open>Step 2: Kahn's topological sort\<close>

type_synonym kahn_state = "levels \<times> levels \<times> string list"

definition seed_source :: "levels \<Rightarrow> OrganizeItem \<Rightarrow> levels \<times> string list \<Rightarrow> levels \<times> string list" where
  "seed_source indegree item lq =
     (if dict_get_or indegree (it_id item) 0 = 0
      then (AList.update (it_id item) 0 (fst lq), snd lq @ [it_id item])
      else lq)"

definition seed_sources :: "levels \<Rightarrow> OrganizeItem list \<Rightarrow> levels \<times> string list" where
  "seed_sources indegree items =
     fold (seed_source indegree) (sort_key (\<lambda>it. (it_x it, it_y it)) items) ([], [])"

text \<open>The body of \<^verbatim>\<open>for target in adjacency.get(current, [])\<close>.\<close>

definition relax :: "int \<Rightarrow> string \<Rightarrow> kahn_state \<Rightarrow> kahn_state" where
  "relax current_level target st =
     (case st of (levels, indegree, queue) \<Rightarrow>
        (let candidate = current_level + 1;
             levels' = (case map_of levels target of
                          None \<Rightarrow> AList.update target candidate levels
                        | Some existing \<Rightarrow>
                            if candidate > existing then AList.update target candidate levels
                            else levels);
             new_degree = dict_get_or indegree target 0 - 1;
             indegree' = AList.update target new_degree indegree
         in (levels', indegree', if new_degree = 0 then queue @ [target] else queue)))"

text \<open>
  The loop \<^verbatim>\<open>while queue\<close> stops: an id is appended to the queue only when its
  in-degree drops from 1 to 0, so the queue length plus the number of ids whose
  in-degree is still positive decreases with every dequeued id.
\<close>

definition pending :: "levels \<Rightarrow> nat" where
  "pending indegree = length (filter (\<lambda>kv. 1 \<le> snd kv) indegree)"

definition kahn_measure :: "kahn_state \<Rightarrow> nat" where
  "kahn_measure st = length (snd (snd st)) + pending (fst (snd st))"

lemma pending_update:
  "pending (AList.update k v d) + (case map_of d k of None \<Rightarrow> 0 | Some w \<Rightarrow> if 1 \<le> w then 1 else 0)
     = pending d + (if 1 \<le> v then 1 else 0)"
proof (induction d)
  case Nil
  then show ?case by (simp add: pending_def)
next
  case (Cons p d)
  then show ?case
    by (cases p) (auto simp: pending_def split: option.splits if_splits)
qed

lemma kahn_measure_relax: "kahn_measure (relax current_level target st) \<le> kahn_measure st"
proof -
  obtain levels indegree queue where st: "st = (levels, indegree, queue)"
    by (cases st)
  have "pending (AList.update target (dict_get_or indegree target 0 - 1) indegree)
          + (if dict_get_or indegree target 0 - 1 = 0 then 1 else 0) \<le> pending indegree"
    using pending_update [of target "dict_get_or indegree target 0 - 1" indegree]
    by (auto simp: dict_get_or_def split: option.splits if_splits)
  then show ?thesis
    unfolding st by (cases "dict_get_or indegree target 0 = 1")
      (simp_all add: relax_def kahn_measure_def Let_def)
qed

lemma kahn_measure_fold_relax:
  "kahn_measure (fold (relax current_level) targets st) \<le> kahn_measure st"
proof (induction targets arbitrary: st)
  case Nil
  then show ?case by simp
next
  case (Cons t targets)
  have "kahn_measure (fold (relax current_level) targets (relax current_level t st))
          \<le> kahn_measure (relax current_level t st)"
    by (rule Cons.IH)
  also have "\<dots> \<le> kahn_measure st"
    by (rule kahn_measure_relax)
  finally show ?case by simp
qed

function kahn_loop :: "adjacency \<Rightarrow> kahn_state \<Rightarrow> kahn_state" where
  "kahn_loop adjacency (levels, indegree, []) = (levels, indegree, [])"
| "kahn_loop adjacency (levels, indegree, current # queue) =
     kahn_loop adjacency
       (fold (relax (dict_get_or levels current 0)) (dict_get_or adjacency current [])
          (levels, indegree, queue))"
  by pat_completeness auto
termination
proof (relation "measure (\<lambda>p. kahn_measure (snd p))")
  show "wf (measure (\<lambda>p. kahn_measure (snd p)))"
    by simp
next
  fix adjacency :: adjacency and levels indegree :: levels and current :: string and queue :: "string list"
  have "kahn_measure (fold (relax (dict_get_or levels current 0)) (dict_get_or adjacency current [])
          (levels, indegree, queue)) \<le> kahn_measure (levels, indegree, queue)"
    by (rule kahn_measure_fold_relax)
  also have "\<dots> < kahn_measure (levels, indegree, current # queue)"
    by (simp add: kahn_measure_def)
  finally show "((adjacency, fold (relax (dict_get_or levels current 0)) (dict_get_or adjacency current [])
          (levels, indegree, queue)), (adjacency, levels, indegree, current # queue))
        \<in> measure (\<lambda>p. kahn_measure (snd p))"
    by simp
qed

subsection \<open>Step 3: items the sort left without a level\<close>

definition incoming_levels :: "OrganizeEdge list \<Rightarrow> levels \<Rightarrow> string \<Rightarrow> int list" where
  "incoming_levels edges levels ident =
     concat (map (\<lambda>e. if to_id e = ident
                       then (case map_of levels (from_id e) of None \<Rightarrow> [] | Some l \<Rightarrow> [l])
                       else []) edges)"

definition resolve_item :: "OrganizeEdge list \<Rightarrow> OrganizeItem \<Rightarrow> levels \<Rightarrow> levels" where
  "resolve_item edges item levels =
     (case incoming_levels edges levels (it_id item) of
        [] \<Rightarrow> AList.update (it_id item) 0 levels
      | l # ls \<Rightarrow> AList.update (it_id item) (fold max ls l + 1) levels)"

definition resolve_unresolved :: "OrganizeItem list \<Rightarrow> OrganizeEdge list \<Rightarrow> levels \<Rightarrow> levels" where
  "resolve_unresolved items edges levels =
     fold (resolve_item edges)
       (sort_key (\<lambda>it. (it_y it, it_x it)) (filter (\<lambda>item. \<not> has_key levels (it_id item)) items))
       levels"

subsection \<open>Step 4: normalised levels\<close>

definition normalize_levels :: "levels \<Rightarrow> levels" where
  "normalize_levels levels =
     (let unique_levels = sort (remdups (map snd levels));
          level_remap = zip unique_levels (map int [0..<length unique_levels])
      in map (\<lambda>kv. (fst kv, dict_get_or level_remap (snd kv) (snd kv))) levels)"

definition raw_levels :: "OrganizeItem list \<Rightarrow> OrganizeEdge list \<Rightarrow> levels" where
  "raw_levels items edges =
     (let g = build_graph items edges;
          seeded = seed_sources (snd g) items;
          sorted_out = kahn_loop (fst g) (fst seeded, snd g, snd seeded)
      in resolve_unresolved items edges (fst sorted_out))"

subsection \<open>Step 5: grid fallback\<close>

definition grid_assign :: "string \<Rightarrow> int \<Rightarrow> nat \<times> OrganizeItem \<Rightarrow> levels \<Rightarrow> levels" where
  "grid_assign orient columns p levels =
     (if orient = ''horizontal''
      then AList.update (it_id (snd p)) (int (fst p) div columns) levels
      else AList.update (it_id (snd p)) (int (fst p) div columns) levels)"

definition effective_levels ::
  "OrganizeItem list \<Rightarrow> OrganizeEdge list \<Rightarrow> OrganizeOptions \<Rightarrow> error + levels" where
  "effective_levels items edges opts =
     (let levels = raw_levels items edges;
          normalized = normalize_levels levels;
          effective = (if normalized \<noteq> [] then normalized else levels);
          total_edges = length edges
      in if total_edges = 0 \<and> length items > 1 then
           (if grid_columns opts = 0 then Inl ZeroDivisionError
            else Inr (fold (grid_assign (orientation opts) (grid_columns opts))
                        (enumerate 0 (sort_key (\<lambda>it. (it_y it, it_x it)) items)) effective))
         else Inr effective)"

subsection \<open>Step 6: grouping by level and positioning\<close>

type_synonym layout = "(string, LayoutPosition) dict"

definition group_item ::
  "(string, OrganizeItem) dict \<Rightarrow> string \<times> int \<Rightarrow> (int, OrganizeItem list) dict
     \<Rightarrow> (int, OrganizeItem list) dict" where
  "group_item item_map p grouped =
     (let g = (if \<not> has_key grouped (snd p) then AList.update (snd p) [] grouped else grouped)
      in case map_of item_map (fst p) of
           None \<Rightarrow> g
         | Some item \<Rightarrow> AList.update (snd p) (dict_get_or g (snd p) [] @ [item]) g)"

definition group_by_level ::
  "(string, OrganizeItem) dict \<Rightarrow> levels \<Rightarrow> (int, OrganizeItem list) dict" where
  "group_by_level item_map effective = fold (group_item item_map) effective []"

definition get_parent_centers ::
  "OrganizeEdge list \<Rightarrow> (string, OrganizeItem) dict \<Rightarrow> layout \<Rightarrow> string \<Rightarrow> real list" where
  "get_parent_centers edges item_map layout item_id =
     concat (map (\<lambda>edge.
       if to_id edge = item_id \<and> has_key layout (from_id edge) then
         (case map_of item_map (from_id edge) of
            None \<Rightarrow> []
          | Some parent_item \<Rightarrow>
              (case map_of layout (from_id edge) of
                 None \<Rightarrow> []
               | Some parent_pos \<Rightarrow> [pos_y parent_pos + it_height parent_item / 2]))
       else []) edges)"

record entry =
  e_item :: OrganizeItem
  target_center :: real
  fallback_center :: real

definition make_entry ::
  "OrganizeEdge list \<Rightarrow> (string, OrganizeItem) dict \<Rightarrow> layout \<Rightarrow> OrganizeItem \<Rightarrow> entry" where
  "make_entry edges item_map layout item =
     (let parent_centers = get_parent_centers edges item_map layout (it_id item);
          fallback = it_y item + it_height item / 2
      in \<lparr>e_item = item,
          target_center = (if parent_centers \<noteq> []
                           then sum_list parent_centers / real (length parent_centers)
                           else fallback),
          fallback_center = fallback\<rparr>)"

text \<open>
  One item of a column. \<open>previous_bottom\<close> is \<open>None\<close> for the source's
  \<^verbatim>\<open>float("-inf")\<close>, the value before the first item of the column.
\<close>

definition place_entry ::
  "real \<Rightarrow> real \<Rightarrow> entry \<Rightarrow> layout \<times> real option \<Rightarrow> layout \<times> real option" where
  "place_entry current_x v_spacing en st =
     (let item = e_item en;
          desired_top = target_center en - it_height item / 2;
          desired_top' = (case snd st of
                            None \<Rightarrow> desired_top
                          | Some previous_bottom \<Rightarrow>
                              (let min_top = previous_bottom + v_spacing
                               in if desired_top < min_top then min_top else desired_top));
          final_y = py_round desired_top'
      in (AList.update (it_id item)
            \<lparr>pos_x = of_int (py_round current_x), pos_y = of_int final_y\<rparr> (fst st),
          Some (of_int final_y + it_height item)))"

definition place_column ::
  "OrganizeEdge list \<Rightarrow> (string, OrganizeItem) dict \<Rightarrow> (int, OrganizeItem list) dict
     \<Rightarrow> OrganizeOptions \<Rightarrow> int \<Rightarrow> layout \<times> real \<Rightarrow> layout \<times> real" where
  "place_column edges item_map grouped opts level st =
     (case dict_get_or grouped level [] of
        [] \<Rightarrow> st
      | c # cs \<Rightarrow>
          (let column_width = fold max (map it_width cs) (it_width c);
               entries = map (make_entry edges item_map (fst st)) (c # cs);
               ordered = sort_key (\<lambda>e. (target_center e, fallback_center e, it_id (e_item e))) entries;
               placed = fold (place_entry (snd st) (vertical_spacing opts)) ordered (fst st, None)
           in (fst placed, snd st + column_width + horizontal_spacing opts)))"

definition place_in_row ::
  "real \<Rightarrow> real \<Rightarrow> OrganizeItem \<Rightarrow> layout \<times> real \<times> real \<Rightarrow> layout \<times> real \<times> real" where
  "place_in_row current_y h_spacing item st =
     (case st of (layout, cursor_x, row_height) \<Rightarrow>
        (AList.update (it_id item)
           \<lparr>pos_x = of_int (py_round cursor_x), pos_y = of_int (py_round current_y)\<rparr> layout,
         cursor_x + it_width item + h_spacing,
         max row_height (it_height item)))"

definition place_row ::
  "(int, OrganizeItem list) dict \<Rightarrow> OrganizeOptions \<Rightarrow> real \<Rightarrow> int \<Rightarrow> layout \<times> real
     \<Rightarrow> layout \<times> real" where
  "place_row grouped opts reference_center level st =
     (let row_items = sort_key (\<lambda>it. (it_x it, it_id it)) (dict_get_or grouped level [])
      in if row_items = [] then st
         else
           (let total_width = sum_list (map it_width row_items)
                                + (real (length row_items) - 1) * horizontal_spacing opts;
                cursor_x = reference_center - total_width / 2;
                placed = fold (place_in_row (snd st) (horizontal_spacing opts)) row_items
                           (fst st, cursor_x, 0)
            in (fst placed, snd st + snd (snd placed) + vertical_spacing opts)))"

definition place_unpositioned :: "OrganizeItem \<Rightarrow> layout \<Rightarrow> layout" where
  "place_unpositioned item layout =
     (if \<not> has_key layout (it_id item)
      then AList.update (it_id item)
             \<lparr>pos_x = of_int (py_round (it_x item)), pos_y = of_int (py_round (it_y item))\<rparr> layout
      else layout)"

text \<open>
  The positioning of a non-empty item list \<open>item # rest\<close>, given the effective levels.
  The bounds \<open>min_x\<close> \<dots> \<open>max_y\<close> are the source's \<^verbatim>\<open>min\<close> and \<^verbatim>\<open>max\<close> over the
  items.
\<close>

definition position_items ::
  "OrganizeItem \<Rightarrow> OrganizeItem list \<Rightarrow> OrganizeEdge list \<Rightarrow> OrganizeOptions \<Rightarrow> levels \<Rightarrow> layout"
where
  "position_items item rest edges opts effective =
     (let items = item # rest;
          item_map = dict_of (map (\<lambda>it. (it_id it, it)) items);
          grouped = group_by_level item_map effective;
          ordered_levels = sort (map fst grouped);
          min_x = fold min (map it_x rest) (it_x item);
          max_x = fold max (map (\<lambda>it. it_x it + it_width it) rest) (it_x item + it_width item);
          min_y = fold min (map it_y rest) (it_y item);
          max_y = fold max (map (\<lambda>it. it_y it + it_height it) rest) (it_y item + it_height item);
          default_start_x = (if start_x opts \<noteq> 0 then start_x opts else min_x);
          default_start_y = (if start_y opts \<noteq> 0 then start_y opts else min_y);
          default_center_x = (min_x + max_x) / 2;
          default_center_y = (min_y + max_y) / 2;
          layout =
            (if orientation opts = ''horizontal'' then
               fst (fold (place_column edges item_map grouped opts) ordered_levels
                      ([], default_start_x))
             else
               (let reference_center_x =
                      (if reference_center_x opts \<noteq> 0 then reference_center_x opts
                       else default_center_x)
                in fst (fold (place_row grouped opts reference_center_x) ordered_levels
                          ([], default_start_y))))
      in fold place_unpositioned items layout)"

definition layout_with ::
  "OrganizeItem list \<Rightarrow> OrganizeEdge list \<Rightarrow> OrganizeOptions \<Rightarrow> error + layout" where
  "layout_with items edges opts =
     (case items of
        [] \<Rightarrow> Inr []
      | item # rest \<Rightarrow>
          (case effective_levels items edges opts of
             Inl err \<Rightarrow> Inl err
           | Inr effective \<Rightarrow> Inr (position_items item rest edges opts effective)))"

text \<open>\<^verbatim>\<open>opts = options or OrganizeOptions()\<close>\<close>

definition compute_organized_layout ::
  "OrganizeItem list \<Rightarrow> OrganizeEdge list \<Rightarrow> OrganizeOptions option \<Rightarrow> error + layout" where
  "compute_organized_layout items edges options =
     layout_with items edges (case options of None \<Rightarrow> default_options | Some opts \<Rightarrow> opts)"

definition mk_item :: "string \<Rightarrow> real \<Rightarrow> real \<Rightarrow> real \<Rightarrow> real \<Rightarrow> OrganizeItem" where
  "mk_item ident px py w h =
     \<lparr>it_id = ident, it_type = ''node'', it_width = w, it_height = h,
      it_x = px, it_y = py, it_node_ids = []\<rparr>"

text \<open>
  A node as the constructor \<^verbatim>\<open>CanvasNode(id=..., x=..., y=..., width=..., height=...)\<close>
  builds it, every other field at its default.
\<close>

definition mk_node :: "string \<Rightarrow> real \<Rightarrow> real \<Rightarrow> real \<Rightarrow> real \<Rightarrow> CanvasNode" where
  "mk_node ident px py w h =
     \<lparr>n_id = ident, n_type = ''default'', n_content = [], n_label = None,
      n_x = px, n_y = py, n_width = w, n_height = h,
      n_inputs = [], n_outputs = [], n_style = None\<rparr>"

text \<open>The level the placer gives to an id, when it does not raise.\<close>

definition level_of ::
  "OrganizeItem list \<Rightarrow> OrganizeEdge list \<Rightarrow> OrganizeOptions \<Rightarrow> string \<Rightarrow> int option" where
  "level_of items edges opts ident =
     (case effective_levels items edges opts of Inl err \<Rightarrow> None | Inr effective \<Rightarrow> map_of effective ident)"

definition example_options :: "int \<Rightarrow> OrganizeOptions" where
  "example_options columns = default_options\<lparr>grid_columns := columns\<rparr>"

section \<open>The hierarchy driver (organize.py)\<close>

text \<open>
  The driver mutates node objects in place. Every node object belongs to one machine, so
  the model passes the containers by value and returns the updated container together
  with the bounds the source returns.
\<close>

type_synonym connections = "(string \<times> string) list"

text \<open>\<^verbatim>\<open>node.width or 360\<close>: a zero width is falsy.\<close>

definition bounds_width :: "CanvasNode \<Rightarrow> real" where
  "bounds_width node = (if n_width node \<noteq> 0 then n_width node else 360)"

definition bounds_height :: "CanvasNode \<Rightarrow> real" where
  "bounds_height node = (if n_height node \<noteq> 0 then n_height node else 180)"

definition compute_bounds_from_nodes :: "CanvasNode list \<Rightarrow> ContainerBounds option" where
  "compute_bounds_from_nodes nodes =
     (case nodes of
        [] \<Rightarrow> None
      | node # rest \<Rightarrow>
          (let min_x = fold min (map n_x rest) (n_x node);
               min_y = fold min (map n_y rest) (n_y node);
               max_x = fold max (map (\<lambda>n. n_x n + bounds_width n) rest) (n_x node + bounds_width node);
               max_y = fold max (map (\<lambda>n. n_y n + bounds_height n) rest) (n_y node + bounds_height node)
           in Some \<lparr>b_x = min_x, b_y = min_y,
                    b_width = max 1 (max_x - min_x), b_height = max 1 (max_y - min_y)\<rparr>))"

text \<open>
  \<^verbatim>\<open>if not src_container or not dst_container\<close>: a missing node and an empty container
  id are both falsy.
\<close>

definition resolve_edge ::
  "(string, string) dict \<Rightarrow> string set \<Rightarrow> string \<times> string
     \<Rightarrow> (string \<times> string) list \<times> OrganizeEdge list \<Rightarrow> (string \<times> string) list \<times> OrganizeEdge list"
where
  "resolve_edge node_to_container container_ids conn acc =
     (case map_of node_to_container (fst conn) of
        None \<Rightarrow> acc
      | Some src_container \<Rightarrow>
          (case map_of node_to_container (snd conn) of
             None \<Rightarrow> acc
           | Some dst_container \<Rightarrow>
               if src_container = [] \<or> dst_container = [] then acc
               else if src_container = dst_container then acc
               else if src_container \<notin> container_ids \<or> dst_container \<notin> container_ids then acc
               else if (src_container, dst_container) \<in> set (fst acc) then acc
               else (fst acc @ [(src_container, dst_container)],
                     snd acc @ [\<lparr>from_id = src_container, to_id = dst_container\<rparr>])))"

definition resolve_edges_for_containers ::
  "connections \<Rightarrow> (string, string) dict \<Rightarrow> string set \<Rightarrow> OrganizeEdge list" where
  "resolve_edges_for_containers conns node_to_container container_ids =
     snd (fold (resolve_edge node_to_container container_ids) conns ([], []))"

definition translate_nodes :: "real \<Rightarrow> real \<Rightarrow> CanvasNode list \<Rightarrow> CanvasNode list" where
  "translate_nodes dx dy nodes = map (\<lambda>node. node\<lparr>n_x := n_x node + dx, n_y := n_y node + dy\<rparr>) nodes"

definition translate_machine :: "real \<Rightarrow> real \<Rightarrow> CanvasMachine \<Rightarrow> CanvasMachine" where
  "translate_machine dx dy machine = machine\<lparr>m_nodes := translate_nodes dx dy (m_nodes machine)\<rparr>"

definition translate_factory :: "real \<Rightarrow> real \<Rightarrow> CanvasFactory \<Rightarrow> CanvasFactory" where
  "translate_factory dx dy factory =
     factory\<lparr>f_machines := map (translate_machine dx dy) (f_machines factory)\<rparr>"

definition translate_network :: "real \<Rightarrow> real \<Rightarrow> CanvasNetwork \<Rightarrow> CanvasNetwork" where
  "translate_network dx dy network =
     network\<lparr>nw_factories := map (translate_factory dx dy) (nw_factories network)\<rparr>"

definition apply_position :: "layout \<Rightarrow> CanvasNode \<Rightarrow> CanvasNode" where
  "apply_position layout node =
     (case map_of layout (n_id node) of
        None \<Rightarrow> node
      | Some pos \<Rightarrow> node\<lparr>n_x := pos_x pos, n_y := pos_y pos\<rparr>)"

definition organize_machine ::
  "CanvasMachine \<Rightarrow> connections \<Rightarrow> real \<Rightarrow> real \<Rightarrow> string
     \<Rightarrow> error + (CanvasMachine \<times> ContainerBounds option)" where
  "organize_machine machine conns sx sy orient =
     (if m_nodes machine = [] then Inr (machine, None)
      else
        (let node_ids = set (map n_id (m_nodes machine));
             items = map (\<lambda>node. \<lparr>it_id = n_id node, it_type = ''node'',
                                   it_width = n_width node, it_height = n_height node,
                                   it_x = n_x node, it_y = n_y node,
                                   it_node_ids = [n_id node]\<rparr>) (m_nodes machine);
             edges = map (\<lambda>conn. \<lparr>from_id = fst conn, to_id = snd conn\<rparr>)
                       (filter (\<lambda>conn. fst conn \<in> node_ids \<and> snd conn \<in> node_ids) conns);
             options = \<lparr>orientation = orient,
                        horizontal_spacing = NODE_HORIZONTAL_SPACING,
                        vertical_spacing = NODE_VERTICAL_SPACING,
                        start_x = sx + MACHINE_PADDING,
                        start_y = sy + MACHINE_PADDING,
                        reference_center_x = 0, reference_center_y = 0,
                        grid_columns = GRID_COLUMNS_NODE\<rparr>
         in case compute_organized_layout items edges (Some options) of
              Inl err \<Rightarrow> Inl err
            | Inr layout \<Rightarrow>
                (let nodes = map (apply_position layout) (m_nodes machine)
                 in Inr (machine\<lparr>m_nodes := nodes\<rparr>, compute_bounds_from_nodes nodes))))"

text \<open>
  The loop \<^verbatim>\<open>for child in children: bounds = organize(child); if bounds:
  child_bounds[child.id] = bounds\<close>, stopped by the first exception.
\<close>

definition organize_child ::
  "('a \<Rightarrow> error + ('a \<times> ContainerBounds option)) \<Rightarrow> ('a \<Rightarrow> string) \<Rightarrow> 'a
     \<Rightarrow> error + ('a list \<times> (string, ContainerBounds) dict)
     \<Rightarrow> error + ('a list \<times> (string, ContainerBounds) dict)" where
  "organize_child organize ident child acc =
     (case acc of
        Inl err \<Rightarrow> Inl err
      | Inr done \<Rightarrow>
          (case organize child of
             Inl err \<Rightarrow> Inl err
           | Inr res \<Rightarrow>
               Inr (fst done @ [fst res],
                    (case snd res of
                       None \<Rightarrow> snd done
                     | Some bounds \<Rightarrow> AList.update (ident child) bounds (snd done)))))"

definition organize_children ::
  "('a \<Rightarrow> error + ('a \<times> ContainerBounds option)) \<Rightarrow> ('a \<Rightarrow> string) \<Rightarrow> 'a list
     \<Rightarrow> error + ('a list \<times> (string, ContainerBounds) dict)" where
  "organize_children organize ident children =
     fold (organize_child organize ident) children (Inr ([], []))"

definition container_item ::
  "string \<Rightarrow> string \<Rightarrow> real \<Rightarrow> real \<Rightarrow> string list \<Rightarrow> ContainerBounds \<Rightarrow> OrganizeItem" where
  "container_item ident kind pad_w pad_h ids bounds =
     \<lparr>it_id = ident, it_type = kind,
      it_width = b_width bounds + pad_w, it_height = b_height bounds + pad_h,
      it_x = b_x bounds, it_y = b_y bounds, it_node_ids = ids\<rparr>"

definition machine_items :: "(string, ContainerBounds) dict \<Rightarrow> CanvasMachine list \<Rightarrow> OrganizeItem list" where
  "machine_items machine_bounds machines =
     concat (map (\<lambda>machine.
       case map_of machine_bounds (m_id machine) of
         None \<Rightarrow> []
       | Some bounds \<Rightarrow>
           [container_item (m_id machine) ''machine'' (MACHINE_PADDING * 2)
              (MACHINE_PADDING * 2 + 40) (map n_id (m_nodes machine)) bounds]) machines)"

definition place_machine ::
  "layout \<Rightarrow> (string, ContainerBounds) dict \<Rightarrow> CanvasMachine \<Rightarrow> CanvasMachine" where
  "place_machine layout machine_bounds machine =
     (case map_of layout (m_id machine) of
        None \<Rightarrow> machine
      | Some pos \<Rightarrow>
          (case map_of machine_bounds (m_id machine) of
             None \<Rightarrow> machine
           | Some bounds \<Rightarrow>
               translate_machine (pos_x pos + MACHINE_PADDING - b_x bounds)
                 (pos_y pos + MACHINE_PADDING + 40 - b_y bounds) machine))"

definition organize_factory ::
  "CanvasFactory \<Rightarrow> connections \<Rightarrow> real \<Rightarrow> real \<Rightarrow> string
     \<Rightarrow> error + (CanvasFactory \<times> ContainerBounds option)" where
  "organize_factory factory conns sx sy orient =
     (if f_machines factory = [] then Inr (factory, None)
      else
        (case organize_children (\<lambda>machine. organize_machine machine conns 0 0 orient) m_id
                (f_machines factory) of
           Inl err \<Rightarrow> Inl err
         | Inr organized \<Rightarrow>
             (let machines = fst organized;
                  machine_bounds = snd organized;
                  factory1 = factory\<lparr>f_machines := machines\<rparr>
              in if machine_bounds = [] then Inr (factory1, None)
                 else
                   (let node_to_machine =
                          dict_of (concat (map (\<lambda>machine.
                            map (\<lambda>node. (n_id node, m_id machine)) (m_nodes machine)) machines));
                        machine_ids = set (map m_id machines);
                        container_edges =
                          resolve_edges_for_containers conns node_to_machine machine_ids;
                        items = machine_items machine_bounds machines
                    in if items = [] then Inr (factory1, None)
                       else
                         (let effective_grid_columns =
                                (if container_edges = [] then int (length items)
                                 else GRID_COLUMNS_CONTAINER);
                              options = \<lparr>orientation = orient,
                                         horizontal_spacing = CONTAINER_HORIZONTAL_SPACING,
                                         vertical_spacing = CONTAINER_VERTICAL_SPACING,
                                         start_x = sx + FACTORY_PADDING,
                                         start_y = sy + FACTORY_PADDING,
                                         reference_center_x = 0, reference_center_y = 0,
                                         grid_columns = effective_grid_columns\<rparr>
                          in case compute_organized_layout items container_edges (Some options) of
                               Inl err \<Rightarrow> Inl err
                             | Inr layout \<Rightarrow>
                                 (let placed = map (place_machine layout machine_bounds) machines
                                  in Inr (factory\<lparr>f_machines := placed\<rparr>,
                                          compute_bounds_from_nodes (machine_all_nodes placed))))))))"

definition factory_items :: "(string, ContainerBounds) dict \<Rightarrow> CanvasFactory list \<Rightarrow> OrganizeItem list" where
  "factory_items factory_bounds factories =
     concat (map (\<lambda>factory.
       case map_of factory_bounds (f_id factory) of
         None \<Rightarrow> []
       | Some bounds \<Rightarrow>
           [container_item (f_id factory) ''factory'' (FACTORY_PADDING * 2)
              (FACTORY_PADDING * 2 + 40) (map n_id (machine_all_nodes (f_machines factory)))
              bounds]) factories)"

definition place_factory ::
  "layout \<Rightarrow> (string, ContainerBounds) dict \<Rightarrow> CanvasFactory \<Rightarrow> CanvasFactory" where
  "place_factory layout factory_bounds factory =
     (case map_of layout (f_id factory) of
        None \<Rightarrow> factory
      | Some pos \<Rightarrow>
          (case map_of factory_bounds (f_id factory) of
             None \<Rightarrow> factory
           | Some bounds \<Rightarrow>
               translate_factory (pos_x pos + FACTORY_PADDING - b_x bounds)
                 (pos_y pos + FACTORY_PADDING + 40 - b_y bounds) factory))"

text \<open>
  The branch \<^verbatim>\<open>if len(factory_bounds) == 1\<close> of \<^verbatim>\<open>_organize_network\<close>: it takes
  \<^verbatim>\<open>network.factories[0]\<close> and subscripts \<^verbatim>\<open>factory_bounds[factory.id]\<close>, which raises
  \<^verbatim>\<open>KeyError\<close> when the first factory is not the one that has bounds.
\<close>

definition place_single_factory ::
  "CanvasNetwork \<Rightarrow> CanvasFactory \<Rightarrow> CanvasFactory list \<Rightarrow> (string, ContainerBounds) dict
     \<Rightarrow> real \<Rightarrow> real \<Rightarrow> error + (CanvasNetwork \<times> ContainerBounds option)" where
  "place_single_factory network factory others factory_bounds sx sy =
     (case map_of factory_bounds (f_id factory) of
        None \<Rightarrow> Inl KeyError
      | Some bounds \<Rightarrow>
          (let moved = translate_factory (sx + NETWORK_PADDING - b_x bounds)
                         (sy + NETWORK_PADDING - b_y bounds) factory
           in Inr (network\<lparr>nw_factories := moved # others\<rparr>,
                   compute_bounds_from_nodes (factory_all_nodes (moved # others)))))"

definition organize_network ::
  "CanvasNetwork \<Rightarrow> connections \<Rightarrow> real \<Rightarrow> real \<Rightarrow> string
     \<Rightarrow> error + (CanvasNetwork \<times> ContainerBounds option)" where
  "organize_network network conns sx sy orient =
     (if nw_factories network = [] then Inr (network, None)
      else
        (case organize_children (\<lambda>factory. organize_factory factory conns 0 0 orient) f_id
                (nw_factories network) of
           Inl err \<Rightarrow> Inl err
         | Inr organized \<Rightarrow>
             (let factories = fst organized;
                  factory_bounds = snd organized;
                  network1 = network\<lparr>nw_factories := factories\<rparr>
              in if factory_bounds = [] then Inr (network1, None)
                 else if length factory_bounds = 1 then
                   (case factories of
                      [] \<Rightarrow> Inr (network1, None)
                    | factory # others \<Rightarrow>
                        place_single_factory network factory others factory_bounds sx sy)
                 else
                   (let node_to_factory =
                          dict_of (concat (map (\<lambda>factory.
                            map (\<lambda>node. (n_id node, f_id factory))
                              (machine_all_nodes (f_machines factory))) factories));
                        factory_ids = set (map f_id factories);
                        container_edges =
                          resolve_edges_for_containers conns node_to_factory factory_ids;
                        items = factory_items factory_bounds factories
                    in if items = [] then Inr (network1, None)
                       else
                         (let effective_grid_columns =
                                (if container_edges = [] then int (length items)
                                 else GRID_COLUMNS_CONTAINER);
                              options = \<lparr>orientation = orient,
                                         horizontal_spacing = NETWORK_HORIZONTAL_SPACING,
                                         vertical_spacing = NETWORK_VERTICAL_SPACING,
                                         start_x = sx + NETWORK_PADDING,
                                         start_y = sy + NETWORK_PADDING,
                                         reference_center_x = 0, reference_center_y = 0,
                                         grid_columns = effective_grid_columns\<rparr>
                          in case compute_organized_layout items container_edges (Some options) of
                               Inl err \<Rightarrow> Inl err
                             | Inr layout \<Rightarrow>
                                 (let placed = map (place_factory layout factory_bounds) factories
                                  in Inr (network\<lparr>nw_factories := placed\<rparr>,
                                          compute_bounds_from_nodes (factory_all_nodes placed))))))))"

section \<open>The Avoider (organize.py)\<close>

text \<open>
  The Avoider works on node objects that it reaches through several tables at once
  (\<^verbatim>\<open>all_nodes\<close>, \<^verbatim>\<open>node_map\<close>, \<^verbatim>\<open>machine_nodes\<close>), so here the objects live in a
  store: the list \<^verbatim>\<open>all_nodes\<close>, a node object being its position in that list. The
  tables hold positions; assigning \<^verbatim>\<open>node.y\<close> updates the store.
\<close>

definition all_machines :: "Canvas \<Rightarrow> CanvasMachine list" where
  "all_machines c = concat (map f_machines (concat (map nw_factories (c_networks c))))"

fun index_machines :: "nat \<Rightarrow> CanvasMachine list \<Rightarrow> (string \<times> nat list) list" where
  "index_machines k [] = []"
| "index_machines k (m # ms) =
     (m_id m, [k..<k + length (m_nodes m)]) # index_machines (k + length (m_nodes m)) ms"

definition build_node_to_machine_map :: "Canvas \<Rightarrow> (string, string) dict" where
  "build_node_to_machine_map c =
     dict_of (concat (map (\<lambda>machine. map (\<lambda>node. (n_id node, m_id machine)) (m_nodes machine))
                       (all_machines c)))"

record avoid_tables =
  original_y :: "(string, real) dict"
  node_to_machine :: "(string, string) dict"
  machine_nodes :: "(string, nat list) dict"
  node_map :: "(string, nat) dict"
  clearance :: real

definition build_tables :: "Canvas \<Rightarrow> real \<Rightarrow> avoid_tables" where
  "build_tables c clr =
     \<lparr>original_y = dict_of (map (\<lambda>n. (n_id n, n_y n)) (all_nodes c)),
      node_to_machine = build_node_to_machine_map c,
      machine_nodes = dict_of (index_machines 0 (all_machines c)),
      node_map = dict_of (zip (map n_id (all_nodes c)) [0..<length (all_nodes c)]),
      clearance = clr\<rparr>"

definition inside_ys :: "CanvasNode \<Rightarrow> BezierSegment list \<Rightarrow> real list" where
  "inside_ys node path =
     map pt_y (filter (\<lambda>pt. n_x node \<le> pt_x pt \<and> pt_x pt \<le> n_x node + n_width node) path)"

definition compute_nudge_direction :: "CanvasNode \<Rightarrow> BezierSegment list \<Rightarrow> real" where
  "compute_nudge_direction node path =
     (let node_cy = n_y node + n_height node / 2;
          ys = inside_ys node path
      in if ys = [] then 1
         else (let path_avg_y = sum_list ys / real (length ys)
               in if path_avg_y \<le> node_cy then 1 else - 1))"

type_synonym store = "CanvasNode list"

text \<open>The body of \<^verbatim>\<open>for sibling in siblings\<close>; \<open>node_y\<close> is the nudged node's new y.\<close>

definition shift_sibling ::
  "avoid_tables \<Rightarrow> string \<Rightarrow> real \<Rightarrow> real \<Rightarrow> real \<Rightarrow> nat \<Rightarrow> store \<times> string set
     \<Rightarrow> store \<times> string set" where
  "shift_sibling tb node_ident direction shift node_y j st =
     (let sibling = fst st ! j
      in if n_id sibling = node_ident then st
         else if n_id sibling \<in> snd st then st
         else
           (let sib_orig = dict_get_or (original_y tb) (n_id sibling) (n_y sibling);
                sib_displacement = \<bar>n_y sibling + shift - sib_orig\<bar>
            in if sib_displacement > MAX_NUDGE_DISPLACEMENT then st
               else if direction > 0 \<and> n_y sibling \<ge> node_y - shift then
                 ((fst st)[j := sibling\<lparr>n_y := of_int (py_round (n_y sibling + shift))\<rparr>],
                  insert (n_id sibling) (snd st))
               else if direction < 0 \<and> n_y sibling \<le> node_y - shift then
                 ((fst st)[j := sibling\<lparr>n_y := of_int (py_round (n_y sibling + shift))\<rparr>],
                  insert (n_id sibling) (snd st))
               else st))"

text \<open>
  The shift that clears the path: \<open>None\<close> where the source reaches a \<^verbatim>\<open>continue\<close>
  (no sampled point in the node's x-range, a shift against the direction, or a clamped
  shift below 5). \<open>orig\<close> is \<^verbatim>\<open>original_y[node.id]\<close>.
\<close>

definition nudge_shift :: "real \<Rightarrow> real \<Rightarrow> CanvasNode \<Rightarrow> BezierSegment list \<Rightarrow> real \<Rightarrow> real option" where
  "nudge_shift clr orig node path direction =
     (case inside_ys node path of
        [] \<Rightarrow> None
      | y0 # ys \<Rightarrow>
          (let shift = (if direction > 0 then fold max ys y0 + clr - n_y node
                        else (fold min ys y0 - n_height node - clr) - n_y node)
           in if direction > 0 \<and> shift \<le> 0 then None
              else if \<not> direction > 0 \<and> shift \<ge> 0 then None
              else if \<bar>n_y node + shift - orig\<bar> > MAX_NUDGE_DISPLACEMENT then
                (let clamped = (if shift > 0
                                then MAX_NUDGE_DISPLACEMENT - \<bar>n_y node - orig\<bar>
                                else - (MAX_NUDGE_DISPLACEMENT - \<bar>n_y node - orig\<bar>))
                 in if \<bar>clamped\<bar> < 5 then None else Some clamped)
              else Some shift))"

type_synonym avoid_state = "store \<times> string set \<times> int"

text \<open>
  The body of \<^verbatim>\<open>for node in all_nodes\<close> for the node at position \<open>i\<close>. The
  subscript \<^verbatim>\<open>original_y[node.id]\<close> cannot fail, because the table has the id of every
  node; the model leaves the state as it is in that case.
\<close>

definition nudge_node ::
  "avoid_tables \<Rightarrow> BezierSegment list \<Rightarrow> string \<Rightarrow> string \<Rightarrow> nat \<Rightarrow> avoid_state \<Rightarrow> avoid_state"
where
  "nudge_node tb path src_id dst_id i st =
     (case st of (nodes, nudged, nudges) \<Rightarrow>
        (let node = nodes ! i
         in if n_id node = src_id \<or> n_id node = dst_id then st
            else if n_id node \<in> nudged then st
            else if \<not> node_intersects_path node path NODE_BBOX_MARGIN then st
            else
              (case map_of (original_y tb) (n_id node) of
                 None \<Rightarrow> st
               | Some orig \<Rightarrow>
                   (let direction = compute_nudge_direction node path
                    in case nudge_shift (clearance tb) orig node path direction of
                         None \<Rightarrow> st
                       | Some shift \<Rightarrow>
                           (let new_y = of_int (py_round (n_y node + shift));
                                nodes1 = nodes[i := node\<lparr>n_y := new_y\<rparr>];
                                nudged1 = insert (n_id node) nudged;
                                machine_id = dict_get_or (node_to_machine tb) (n_id node) [];
                                siblings = (if machine_id \<noteq> []
                                            then dict_get_or (machine_nodes tb) machine_id []
                                            else []);
                                shifted = fold (shift_sibling tb (n_id node) direction shift new_y)
                                            siblings (nodes1, nudged1)
                            in (fst shifted, snd shifted, nudges + 1))))))"

text \<open>The body of \<^verbatim>\<open>for src_id, dst_id in connections\<close>; the path is sampled once.\<close>

definition avoid_connection :: "avoid_tables \<Rightarrow> string \<times> string \<Rightarrow> avoid_state \<Rightarrow> avoid_state" where
  "avoid_connection tb conn st =
     (case map_of (node_map tb) (fst conn) of
        None \<Rightarrow> st
      | Some si \<Rightarrow>
          (case map_of (node_map tb) (snd conn) of
             None \<Rightarrow> st
           | Some di \<Rightarrow>
               (let path = sample_points (fst st ! si) (fst st ! di) 24
                in fold (nudge_node tb path (fst conn) (snd conn)) [0..<length (fst st)] st)))"

definition avoid_round :: "avoid_tables \<Rightarrow> connections \<Rightarrow> store \<times> int \<Rightarrow> avoid_state" where
  "avoid_round tb conns st = fold (avoid_connection tb) conns (fst st, {}, snd st)"

text \<open>\<^verbatim>\<open>for iteration in range(max_iterations)\<close> with its \<^verbatim>\<open>break\<close>.\<close>

fun avoid_iterations :: "nat \<Rightarrow> avoid_tables \<Rightarrow> connections \<Rightarrow> store \<times> int \<Rightarrow> store \<times> int" where
  "avoid_iterations 0 tb conns st = st"
| "avoid_iterations (Suc k) tb conns st =
     (case avoid_round tb conns st of (nodes, nudged, nudges) \<Rightarrow>
        if nudged = {} then (nodes, nudges)
        else avoid_iterations k tb conns (nodes, nudges))"

text \<open>
  The store after the pass and the number of nudges, from the store \<^verbatim>\<open>all_nodes\<close>
  of the canvas.
\<close>

definition avoid_store :: "Canvas \<Rightarrow> connections \<Rightarrow> real \<Rightarrow> nat \<Rightarrow> store \<times> int" where
  "avoid_store c conns clr max_iterations =
     (if conns = [] \<or> length (all_nodes c) < 3 then (all_nodes c, 0)
      else avoid_iterations max_iterations (build_tables c clr) conns (all_nodes c, 0))"

text \<open>
  Writing the store back: the canvas whose node objects, in the order of
  \<^verbatim>\<open>all_nodes\<close>, are the given ones.
\<close>

fun put_machine_nodes :: "CanvasMachine list \<Rightarrow> CanvasNode list \<Rightarrow> CanvasMachine list" where
  "put_machine_nodes [] ns = []"
| "put_machine_nodes (m # ms) ns =
     m\<lparr>m_nodes := take (length (m_nodes m)) ns\<rparr>
       # put_machine_nodes ms (drop (length (m_nodes m)) ns)"

fun put_factory_nodes :: "CanvasFactory list \<Rightarrow> CanvasNode list \<Rightarrow> CanvasFactory list" where
  "put_factory_nodes [] ns = []"
| "put_factory_nodes (f # fs) ns =
     f\<lparr>f_machines := put_machine_nodes (f_machines f)
                        (take (length (machine_all_nodes (f_machines f))) ns)\<rparr>
       # put_factory_nodes fs (drop (length (machine_all_nodes (f_machines f))) ns)"

fun put_network_nodes :: "CanvasNetwork list \<Rightarrow> CanvasNode list \<Rightarrow> CanvasNetwork list" where
  "put_network_nodes [] ns = []"
| "put_network_nodes (nw # nws) ns =
     nw\<lparr>nw_factories := put_factory_nodes (nw_factories nw)
                           (take (length (factory_all_nodes (nw_factories nw))) ns)\<rparr>
       # put_network_nodes nws (drop (length (factory_all_nodes (nw_factories nw))) ns)"

definition put_nodes :: "Canvas \<Rightarrow> CanvasNode list \<Rightarrow> Canvas" where
  "put_nodes c ns = c\<lparr>c_networks := put_network_nodes (c_networks c) ns\<rparr>"

text \<open>
  \<^verbatim>\<open>_avoid_connectors(canvas, clearance, max_iterations)\<close>: the canvas after the pass
  and the returned number of nudges. \<open>ord\<close> lists the set of connections.
\<close>

definition avoid_connectors ::
  "(connections \<Rightarrow> connections) \<Rightarrow> Canvas \<Rightarrow> real \<Rightarrow> nat \<Rightarrow> Canvas \<times> int" where
  "avoid_connectors ord c clr max_iterations =
     (let res = avoid_store c (all_connections ord c) clr max_iterations
      in (put_nodes c (fst res), snd res))"

section \<open>The public entry point (organize_canvas)\<close>

definition organize_networks ::
  "CanvasNetwork list \<Rightarrow> connections \<Rightarrow> string
     \<Rightarrow> error + (CanvasNetwork list \<times> (string, ContainerBounds) dict)" where
  "organize_networks networks conns orient =
     organize_children
       (\<lambda>network.
          case organize_network network conns 0 0 orient of
            Inl err \<Rightarrow> Inl err
          | Inr res \<Rightarrow> Inr (fst res, compute_bounds_from_nodes (network_all_nodes [fst res])))
       nw_id networks"

definition network_items :: "(string, ContainerBounds) dict \<Rightarrow> CanvasNetwork list \<Rightarrow> OrganizeItem list" where
  "network_items network_bounds networks =
     concat (map (\<lambda>network.
       case map_of network_bounds (nw_id network) of
         None \<Rightarrow> []
       | Some bounds \<Rightarrow>
           [container_item (nw_id network) ''network'' (NETWORK_PADDING * 2)
              (NETWORK_PADDING * 2) (map n_id (network_all_nodes [network])) bounds]) networks)"

definition place_network ::
  "layout \<Rightarrow> (string, ContainerBounds) dict \<Rightarrow> CanvasNetwork \<Rightarrow> CanvasNetwork" where
  "place_network layout network_bounds network =
     (case map_of layout (nw_id network) of
        None \<Rightarrow> network
      | Some pos \<Rightarrow>
          (case map_of network_bounds (nw_id network) of
             None \<Rightarrow> network
           | Some bounds \<Rightarrow>
               translate_network (pos_x pos + NETWORK_PADDING - b_x bounds)
                 (pos_y pos + NETWORK_PADDING - b_y bounds) network))"

text \<open>
  The hierarchical placement of \<^verbatim>\<open>organize_canvas\<close>, up to the call of the Avoider:
  the canvas it has built and whether the source goes on to call \<^verbatim>\<open>_avoid_connectors\<close>
  (it returns without the call when no network has bounds).
\<close>

definition place_canvas :: "Canvas \<Rightarrow> connections \<Rightarrow> string \<Rightarrow> error + (Canvas \<times> bool)" where
  "place_canvas c conns orient =
     (let sx = 80; sy = 100
      in case organize_networks (c_networks c) conns orient of
           Inl err \<Rightarrow> Inl err
         | Inr organized \<Rightarrow>
             (let networks = fst organized;
                  network_bounds = snd organized
              in if length networks \<le> 1 then
                   (case networks of
                      [] \<Rightarrow> Inr (c\<lparr>c_networks := networks\<rparr>, True)
                    | net # others \<Rightarrow>
                        if network_all_nodes [net] = [] then Inr (c\<lparr>c_networks := networks\<rparr>, True)
                        else
                          (case map_of network_bounds (nw_id net) of
                             None \<Rightarrow> Inr (c\<lparr>c_networks := networks\<rparr>, True)
                           | Some bounds \<Rightarrow>
                               Inr (c\<lparr>c_networks :=
                                        translate_network (sx - b_x bounds) (sy - b_y bounds) net
                                          # others\<rparr>, True)))
                 else
                   (let node_to_network =
                          dict_of (concat (map (\<lambda>network.
                            map (\<lambda>node. (n_id node, nw_id network)) (network_all_nodes [network]))
                            networks));
                        network_ids = set (map nw_id networks);
                        container_edges =
                          resolve_edges_for_containers conns node_to_network network_ids;
                        items = network_items network_bounds networks
                    in if items = [] then Inr (c\<lparr>c_networks := networks\<rparr>, False)
                       else
                         (let options = \<lparr>orientation = orient,
                                         horizontal_spacing = INTER_NETWORK_HORIZONTAL_SPACING,
                                         vertical_spacing = INTER_NETWORK_VERTICAL_SPACING,
                                         start_x = sx, start_y = sy,
                                         reference_center_x = 0, reference_center_y = 0,
                                         grid_columns = GRID_COLUMNS_CONTAINER\<rparr>
                          in case compute_organized_layout items container_edges (Some options) of
                               Inl err \<Rightarrow> Inl err
                             | Inr layout \<Rightarrow>
                                 Inr (c\<lparr>c_networks := map (place_network layout network_bounds)
                                                        networks\<rparr>, True)))))"

text \<open>
  \<^verbatim>\<open>organize_canvas(canvas, spacing_level, orientation)\<close>: the canvas after the call,
  or the exception it raises.
\<close>

definition organize_canvas ::
  "(connections \<Rightarrow> connections) \<Rightarrow> Canvas \<Rightarrow> string \<Rightarrow> string \<Rightarrow> error + Canvas" where
  "organize_canvas ord c spacing_level orient =
     (if all_nodes c = [] then Inr c
      else
        (case place_canvas c (all_connections ord c) orient of
           Inl err \<Rightarrow> Inl err
         | Inr placed \<Rightarrow>
             if snd placed
             then Inr (fst (avoid_connectors ord (fst placed) CONNECTOR_CLEARANCE MAX_NUDGE_ITERATIONS))
             else Inr (fst placed)))"

text \<open>
  A network whose first factory has no machines and whose second factory holds one
  machine with one node.
\<close>

definition example_machine :: CanvasMachine where
  "example_machine =
     \<lparr>m_id = ''m1'', m_label = None, m_description = None,
      m_nodes = [mk_node ''a'' 0 0 200 100]\<rparr>"

definition empty_factory :: CanvasFactory where
  "empty_factory = \<lparr>f_id = ''f1'', f_label = None, f_description = None, f_machines = []\<rparr>"

definition full_factory :: CanvasFactory where
  "full_factory =
     \<lparr>f_id = ''f2'', f_label = None, f_description = None, f_machines = [example_machine]\<rparr>"

definition example_network :: CanvasNetwork where
  "example_network =
     \<lparr>nw_id = ''n1'', nw_label = None, nw_description = None,
      nw_factories = [empty_factory, full_factory]\<rparr>"

definition example_canvas :: Canvas where
  "example_canvas = \<lparr>c_title = ''t'', c_theme = ''dark'', c_networks = [example_network]\<rparr>"

section \<open>Comparing canvases up to node fields\<close>

definition map_machine_nodes :: "(CanvasNode \<Rightarrow> CanvasNode) \<Rightarrow> CanvasMachine \<Rightarrow> CanvasMachine" where
  "map_machine_nodes g m = m\<lparr>m_nodes := map g (m_nodes m)\<rparr>"

definition map_factory_nodes :: "(CanvasNode \<Rightarrow> CanvasNode) \<Rightarrow> CanvasFactory \<Rightarrow> CanvasFactory" where
  "map_factory_nodes g f = f\<lparr>f_machines := map (map_machine_nodes g) (f_machines f)\<rparr>"

definition map_network_nodes :: "(CanvasNode \<Rightarrow> CanvasNode) \<Rightarrow> CanvasNetwork \<Rightarrow> CanvasNetwork" where
  "map_network_nodes g nw = nw\<lparr>nw_factories := map (map_factory_nodes g) (nw_factories nw)\<rparr>"

definition map_canvas_nodes :: "(CanvasNode \<Rightarrow> CanvasNode) \<Rightarrow> Canvas \<Rightarrow> Canvas" where
  "map_canvas_nodes g c = c\<lparr>c_networks := map (map_network_nodes g) (c_networks c)\<rparr>"

text \<open>A node with its y-coordinate blanked: two nodes agree on it when they differ in y only.\<close>

definition erase_y :: "CanvasNode \<Rightarrow> CanvasNode" where
  "erase_y n = n\<lparr>n_y := 0\<rparr>"

text \<open>
  The displacement budget: the store \<open>s\<close> has the nodes of \<open>s0\<close> with other y-coordinates,
  none further than \<^const>\<open>MAX_NUDGE_DISPLACEMENT\<close> from where it was in \<open>s0\<close>.
\<close>

definition within_budget :: "CanvasNode list \<Rightarrow> CanvasNode list \<Rightarrow> bool" where
  "within_budget s0 s \<longleftrightarrow>
     map erase_y s = map erase_y s0 \<and>
     list_all2 (\<lambda>before after. \<bar>n_y after - n_y before\<bar> \<le> MAX_NUDGE_DISPLACEMENT) s0 s"

text \<open>
  A canvas for the Avoider: the connection \<open>a \<rightarrow> c\<close> runs straight from \<open>a\<close> to \<open>c\<close> at
  height 500, and the tall node \<open>b\<close>, alone in its machine, stands across it with its upper edge
  at \<open>y0\<close>.
\<close>

definition node_a :: CanvasNode where
  "node_a = (mk_node ''a'' 0 450 100 100)\<lparr>n_outputs := [''c'']\<rparr>"

definition node_b :: "real \<Rightarrow> CanvasNode" where
  "node_b y0 = mk_node ''b'' 500 y0 100 2000"

definition node_c :: CanvasNode where
  "node_c = mk_node ''c'' 1000 450 100 100"

definition cap_canvas :: "real \<Rightarrow> Canvas" where
  "cap_canvas y0 =
     \<lparr>c_title = ''t'', c_theme = ''dark'',
      c_networks =
        [\<lparr>nw_id = ''n1'', nw_label = None, nw_description = None,
          nw_factories =
            [\<lparr>f_id = ''f1'', f_label = None, f_description = None,
              f_machines =
                [\<lparr>m_id = ''m1'', m_label = None, m_description = None,
                  m_nodes = [node_a, node_c]\<rparr>,
                 \<lparr>m_id = ''m2'', m_label = None, m_description = None,
                  m_nodes = [node_b y0]\<rparr>]\<rparr>]\<rparr>]\<rparr>"

definition cap_tables :: "real \<Rightarrow> avoid_tables" where
  "cap_tables y0 =
     \<lparr>original_y = [(''a'', 450), (''c'', 450), (''b'', y0)],
      node_to_machine = [(''a'', ''m1''), (''c'', ''m1''), (''b'', ''m2'')],
      machine_nodes = [(''m1'', [0, 1]), (''m2'', [2])],
      node_map = [(''a'', 0), (''c'', 1), (''b'', 2)],
      clearance = 20\<rparr>"

definition straight_path :: "BezierSegment list" where
  "straight_path =
     [\<lparr>pt_x = 100, pt_y = 500\<rparr>, \<lparr>pt_x = 27665 / 192, pt_y = 500\<rparr>,
      \<lparr>pt_x = 4475 / 24, pt_y = 500\<rparr>, \<lparr>pt_x = 14545 / 64, pt_y = 500\<rparr>,
      \<lparr>pt_x = 800 / 3, pt_y = 500\<rparr>, \<lparr>pt_x = 58525 / 192, pt_y = 500\<rparr>,
      \<lparr>pt_x = 2735 / 8, pt_y = 500\<rparr>, \<lparr>pt_x = 72575 / 192, pt_y = 500\<rparr>,
      \<lparr>pt_x = 1240 / 3, pt_y = 500\<rparr>, \<lparr>pt_x = 28675 / 64, pt_y = 500\<rparr>,
      \<lparr>pt_x = 11575 / 24, pt_y = 500\<rparr>, \<lparr>pt_x = 99115 / 192, pt_y = 500\<rparr>,
      \<lparr>pt_x = 550, pt_y = 500\<rparr>, \<lparr>pt_x = 112085 / 192, pt_y = 500\<rparr>,
      \<lparr>pt_x = 14825 / 24, pt_y = 500\<rparr>, \<lparr>pt_x = 41725 / 64, pt_y = 500\<rparr>,
      \<lparr>pt_x = 2060 / 3, pt_y = 500\<rparr>, \<lparr>pt_x = 138625 / 192, pt_y = 500\<rparr>,
      \<lparr>pt_x = 6065 / 8, pt_y = 500\<rparr>, \<lparr>pt_x = 152675 / 192, pt_y = 500\<rparr>,
      \<lparr>pt_x = 2500 / 3, pt_y = 500\<rparr>, \<lparr>pt_x = 55855 / 64, pt_y = 500\<rparr>,
      \<lparr>pt_x = 21925 / 24, pt_y = 500\<rparr>, \<lparr>pt_x = 183535 / 192, pt_y = 500\<rparr>,
      \<lparr>pt_x = 1000, pt_y = 500\<rparr>]"

text \<open>
  The ids of the items, and the edges that survive step 1: both endpoints are items.
\<close>

definition item_ids :: "OrganizeItem list \<Rightarrow> string set" where
  "item_ids items = set (map it_id items)"

definition surviving :: "OrganizeItem list \<Rightarrow> OrganizeEdge \<Rightarrow> bool" where
  "surviving items e \<longleftrightarrow> from_id e \<in> item_ids items \<and> to_id e \<in> item_ids items"

text \<open>
  The state of Kahn's loop after the ids \<open>processed\<close> have been dequeued: what the proof
  of the topological order keeps track of. \<open>ids\<close> are the item ids and \<open>surv\<close> the surviving
  edges.
\<close>

definition queue_ok :: "string list \<Rightarrow> kahn_state \<Rightarrow> bool" where
  "queue_ok processed st \<longleftrightarrow>
     distinct (processed @ snd (snd st)) \<and>
     (\<forall>v \<in> set (processed @ snd (snd st)). dict_get_or (fst (snd st)) v 0 \<le> 0)"

definition ready_queued :: "string set \<Rightarrow> string list \<Rightarrow> kahn_state \<Rightarrow> bool" where
  "ready_queued ids processed st \<longleftrightarrow>
     (\<forall>v \<in> ids. dict_get_or (fst (snd st)) v 0 = 0 \<longrightarrow> v \<in> set (processed @ snd (snd st)))"

definition kahn_inv :: "string set \<Rightarrow> OrganizeEdge list \<Rightarrow> string list \<Rightarrow> kahn_state \<Rightarrow> bool" where
  "kahn_inv ids surv processed st \<longleftrightarrow>
     queue_ok processed st \<and>
     ready_queued ids processed st \<and>
     set (processed @ snd (snd st)) \<subseteq> ids \<and>
     (\<forall>v. dict_get_or (fst (snd st)) v 0
            = int (length (filter (\<lambda>e. to_id e = v \<and> from_id e \<notin> set processed) surv))) \<and>
     (\<forall>v \<in> set (processed @ snd (snd st)). has_key (fst st) v) \<and>
     (\<forall>e \<in> set surv. from_id e \<in> set processed \<longrightarrow>
        (\<exists>lu lv. map_of (fst st) (from_id e) = Some lu \<and> map_of (fst st) (to_id e) = Some lv \<and> lu < lv))"

text \<open>The diamond \<open>A \<rightarrow> B\<close>, \<open>A \<rightarrow> C\<close>, \<open>B \<rightarrow> D\<close>, \<open>C \<rightarrow> D\<close> and a numbering of its items.\<close>

definition diamond_items :: "OrganizeItem list" where
  "diamond_items =
     [mk_item ''A'' 0 0 10 10, mk_item ''B'' 0 0 10 10, mk_item ''C'' 0 0 10 10,
      mk_item ''D'' 0 0 10 10]"

definition diamond_edges :: "OrganizeEdge list" where
  "diamond_edges =
     [\<lparr>from_id = ''A'', to_id = ''B''\<rparr>, \<lparr>from_id = ''A'', to_id = ''C''\<rparr>,
      \<lparr>from_id = ''B'', to_id = ''D''\<rparr>, \<lparr>from_id = ''C'', to_id = ''D''\<rparr>]"

definition diamond_rank :: "string \<Rightarrow> nat" where
  "diamond_rank ident = (if ident = ''A'' then 0 else if ident = ''D'' then 2 else 1)"

section \<open>Fallback labels\<close>

text \<open>
  C10. For a node, a machine, a factory and a network alike, \<open>get_label\<close> returns the
  id when the label is \<^verbatim>\<open>None\<close> and also when it is the empty string.
\<close>

theorem get_label_falls_back_to_id:
  "(n_label n = None \<or> n_label n = Some [] \<longrightarrow> node_get_label n = n_id n) \<and>
   (m_label m = None \<or> m_label m = Some [] \<longrightarrow> machine_get_label m = m_id m) \<and>
   (f_label f = None \<or> f_label f = Some [] \<longrightarrow> factory_get_label f = f_id f) \<and>
   (nw_label nw = None \<or> nw_label nw = Some [] \<longrightarrow> network_get_label nw = nw_id nw)"
  by (auto simp: node_get_label_def machine_get_label_def factory_get_label_def
      network_get_label_def label_or_id_def)

theorem get_label_falls_back_to_id_witness:
  "node_get_label ((mk_node ''a'' 0 0 1 1)\<lparr>n_label := Some []\<rparr>) = ''a'' \<and>
   machine_get_label \<lparr>m_id = ''m'', m_label = Some [], m_description = None, m_nodes = []\<rparr> = ''m'' \<and>
   factory_get_label \<lparr>f_id = ''f'', f_label = None, f_description = None, f_machines = []\<rparr> = ''f'' \<and>
   network_get_label \<lparr>nw_id = ''w'', nw_label = Some [], nw_description = None, nw_factories = []\<rparr> = ''w''"
  using get_label_falls_back_to_id
    [of "(mk_node ''a'' 0 0 1 1)\<lparr>n_label := Some []\<rparr>"
        "\<lparr>m_id = ''m'', m_label = Some [], m_description = None, m_nodes = []\<rparr>"
        "\<lparr>f_id = ''f'', f_label = None, f_description = None, f_machines = []\<rparr>"
        "\<lparr>nw_id = ''w'', nw_label = Some [], nw_description = None, nw_factories = []\<rparr>"]
  by (simp add: mk_node_def)

section \<open>Endpoints of the sampled connector\<close>

lemma bezier_point_start: "bezier_point s cp1 cp2 e 0 = \<lparr>pt_x = fst s, pt_y = snd s\<rparr>"
  by (simp add: bezier_point_def)

lemma bezier_point_end: "bezier_point s cp1 cp2 e 1 = \<lparr>pt_x = fst e, pt_y = snd e\<rparr>"
  by (simp add: bezier_point_def)

lemma sample_points_ends:
  assumes "0 < steps" and "select_ports src dst = (s, e, vertical)"
  shows "sample_points src dst steps \<noteq> []"
    and "hd (sample_points src dst steps) = \<lparr>pt_x = fst s, pt_y = snd s\<rparr>"
    and "last (sample_points src dst steps) = \<lparr>pt_x = fst e, pt_y = snd e\<rparr>"
proof -
  obtain cp1 cp2 where cp: "control_points s e vertical = (cp1, cp2)"
    by (cases "control_points s e vertical")
  let ?f = "\<lambda>i::int. bezier_point s cp1 cp2 e (of_int i / of_int steps)"
  have pts: "sample_points src dst steps = map ?f [0..steps]"
    using assms(2) cp by (simp add: sample_points_def)
  have first: "[0..steps] = 0 # [1..steps]"
    using assms(1) by (simp add: upto_rec1)
  have final: "[0..steps] = [0..steps - 1] @ [steps]"
    using assms(1) by (simp add: upto_rec2)
  show "sample_points src dst steps \<noteq> []"
    by (simp add: pts first)
  show "hd (sample_points src dst steps) = \<lparr>pt_x = fst s, pt_y = snd s\<rparr>"
    by (simp add: pts first bezier_point_start)
  have "last (map ?f [0..steps]) = ?f steps"
    by (subst final) simp
  moreover have "real_of_int steps / real_of_int steps = 1"
    using assms(1) by simp
  ultimately show "last (sample_points src dst steps) = \<lparr>pt_x = fst e, pt_y = snd e\<rparr>"
    by (simp add: pts bezier_point_end)
qed

text \<open>
  C7. With \<open>(dx, dy)\<close> the vector between the centres: when
  \<open>\<bar>dy\<bar> > 1.5 * source.height\<close> and \<open>\<bar>dy\<bar> > \<bar>dx\<bar>\<close> the sampled polyline starts exactly at
  the midpoint of the source's bottom edge and ends at the midpoint of the target's top
  edge (top and bottom exchanged when \<open>dy < 0\<close>); otherwise it starts at the midpoint of
  the source's right edge and ends at the midpoint of the target's left edge when
  \<open>dx \<ge> 0\<close>, and left and right are exchanged when \<open>dx < 0\<close>. The sampler is called with
  a positive number of steps (24 by the Avoider, 20 by default).
\<close>

theorem sample_bezier_path_endpoints:
  assumes "0 < steps"
    and "dx = (n_x dst + n_width dst / 2) - (n_x src + n_width src / 2)"
    and "dy = (n_y dst + n_height dst / 2) - (n_y src + n_height src / 2)"
  shows "\<exists>pts. sample_bezier_path src dst steps = Inr pts \<and> pts \<noteq> [] \<and>
    (if \<bar>dy\<bar> > 1.5 * n_height src \<and> \<bar>dy\<bar> > \<bar>dx\<bar> then
       (if dy < 0
        then hd pts = \<lparr>pt_x = n_x src + n_width src / 2, pt_y = n_y src\<rparr> \<and>
             last pts = \<lparr>pt_x = n_x dst + n_width dst / 2, pt_y = n_y dst + n_height dst\<rparr>
        else hd pts = \<lparr>pt_x = n_x src + n_width src / 2, pt_y = n_y src + n_height src\<rparr> \<and>
             last pts = \<lparr>pt_x = n_x dst + n_width dst / 2, pt_y = n_y dst\<rparr>)
     else
       (if dx \<ge> 0
        then hd pts = \<lparr>pt_x = n_x src + n_width src, pt_y = n_y src + n_height src / 2\<rparr> \<and>
             last pts = \<lparr>pt_x = n_x dst, pt_y = n_y dst + n_height dst / 2\<rparr>
        else hd pts = \<lparr>pt_x = n_x src, pt_y = n_y src + n_height src / 2\<rparr> \<and>
             last pts = \<lparr>pt_x = n_x dst + n_width dst, pt_y = n_y dst + n_height dst / 2\<rparr>))"
proof -
  obtain s e vertical where ports: "select_ports src dst = (s, e, vertical)"
    by (cases "select_ports src dst")
  note ends = sample_points_ends [OF assms(1) ports]
  have path: "sample_bezier_path src dst steps = Inr (sample_points src dst steps)"
    using assms(1) by (simp add: sample_bezier_path_def)
  have "\<bar>dy\<bar> > \<bar>dx\<bar> \<Longrightarrow> dy \<noteq> 0"
    by auto
  then have anchors:
    "(if \<bar>dy\<bar> > 1.5 * n_height src \<and> \<bar>dy\<bar> > \<bar>dx\<bar> then
       (if dy < 0
        then s = (n_x src + n_width src / 2, n_y src) \<and>
             e = (n_x dst + n_width dst / 2, n_y dst + n_height dst)
        else s = (n_x src + n_width src / 2, n_y src + n_height src) \<and>
             e = (n_x dst + n_width dst / 2, n_y dst))
     else
       (if dx \<ge> 0
        then s = (n_x src + n_width src, n_y src + n_height src / 2) \<and>
             e = (n_x dst, n_y dst + n_height dst / 2)
        else s = (n_x src, n_y src + n_height src / 2) \<and>
             e = (n_x dst + n_width dst, n_y dst + n_height dst / 2)))"
    using ports unfolding select_ports_def Let_def assms(2,3) [symmetric]
    by (auto split: if_splits simp: mult.commute)
  show ?thesis
    using anchors ends unfolding path
    by (auto split: if_splits)
qed

theorem sample_bezier_path_endpoints_witness:
  "\<exists>pts. sample_bezier_path (mk_node ''a'' 0 0 100 50) (mk_node ''b'' 20 300 100 50) 24 = Inr pts \<and>
     pts \<noteq> [] \<and> hd pts = \<lparr>pt_x = 50, pt_y = 50\<rparr> \<and> last pts = \<lparr>pt_x = 70, pt_y = 300\<rparr>"
  using sample_bezier_path_endpoints
    [of 24 20 "mk_node ''b'' 20 300 100 50" "mk_node ''a'' 0 0 100 50" 300]
  by (simp add: mk_node_def)

section \<open>The margin of the intersection test\<close>

text \<open>
  With the default margin \<open>-8\<close> the rectangle that is tested is the node's rectangle
  grown by 8 on every side: \<open>x1 = node.x + margin\<close> lies 8 to the left of the node and
  \<open>x2 = node.x + node.width - margin\<close> lies 8 to the right.
\<close>

lemma any_point_inside_iff:
  "any_point_inside x1 y1 x2 y2 path \<longleftrightarrow>
     (\<exists>pt \<in> set path. x1 \<le> pt_x pt \<and> pt_x pt \<le> x2 \<and> y1 \<le> pt_y pt \<and> pt_y pt \<le> y2)"
  by (induction path) auto

lemma node_intersects_path_default_margin:
  "node_intersects_path node path NODE_BBOX_MARGIN \<longleftrightarrow>
     (\<exists>pt \<in> set path.
        n_x node - 8 \<le> pt_x pt \<and> pt_x pt \<le> n_x node + n_width node + 8 \<and>
        n_y node - 8 \<le> pt_y pt \<and> pt_y pt \<le> n_y node + n_height node + 8)"
  by (simp add: node_intersects_path_def NODE_BBOX_MARGIN_def any_point_inside_iff)

text \<open>
  C2 (the code departs from the claim). The claim, and the comment above
  \<^verbatim>\<open>NODE_BBOX_MARGIN\<close>, say that a point is a hit only inside the node's rectangle
  contracted by 8. For the node at \<open>(0, 0)\<close> of size \<open>100 \<times> 100\<close> the point \<open>(-5, 50)\<close>
  lies outside the node, hence outside the contracted rectangle, and is reported as a hit.
\<close>

theorem node_intersects_path_grows_rectangle:
  "node_intersects_path (mk_node ''B'' 0 0 100 100) [\<lparr>pt_x = - 5, pt_y = 50\<rparr>] NODE_BBOX_MARGIN \<and>
   \<not> (n_x (mk_node ''B'' 0 0 100 100) + 8 \<le> pt_x \<lparr>pt_x = - 5, pt_y = 50\<rparr>)"
  by (simp add: node_intersects_path_def NODE_BBOX_MARGIN_def mk_node_def)

section \<open>The grid fallback and edges to unknown ids\<close>

lemmas level_defs = effective_levels_def raw_levels_def build_graph_def seed_sources_def
  seed_source_def dict_of_def add_edge_def has_key_def dict_get_or_def resolve_unresolved_def
  resolve_item_def incoming_levels_def normalize_levels_def grid_assign_def relax_def Let_def

lemmas position_defs = position_items_def group_by_level_def group_item_def
  get_parent_centers_def make_entry_def place_entry_def place_column_def place_in_row_def
  place_row_def place_unpositioned_def py_round_def dict_of_def has_key_def dict_get_or_def Let_def

lemmas example_defs = example_options_def default_options_def mk_item_def
  NODE_HORIZONTAL_SPACING_def NODE_VERTICAL_SPACING_def GRID_COLUMNS_NODE_def

lemma levels_with_dangling_edge:
  "effective_levels [mk_item ''A'' 0 0 10 10, mk_item ''B'' 0 0 10 10]
     [\<lparr>from_id = ''A'', to_id = ''Z''\<rparr>] (example_options 1) = Inr [(''A'', 0), (''B'', 0)]"
  by (simp add: level_defs example_defs)

lemma levels_without_edges:
  "effective_levels [mk_item ''A'' 0 0 10 10, mk_item ''B'' 0 0 10 10] [] (example_options 1)
     = Inr [(''A'', 0), (''B'', 1)]"
  by (simp add: level_defs example_defs)

lemma layout_with_dangling_edge:
  "compute_organized_layout [mk_item ''A'' 0 0 10 10, mk_item ''B'' 0 0 10 10]
     [\<lparr>from_id = ''A'', to_id = ''Z''\<rparr>] (Some (example_options 1))
     = Inr [(''A'', \<lparr>pos_x = 0, pos_y = 0\<rparr>), (''B'', \<lparr>pos_x = 0, pos_y = 150\<rparr>)]"
proof -
  have "compute_organized_layout [mk_item ''A'' 0 0 10 10, mk_item ''B'' 0 0 10 10]
          [\<lparr>from_id = ''A'', to_id = ''Z''\<rparr>] (Some (example_options 1))
        = Inr (position_items (mk_item ''A'' 0 0 10 10) [mk_item ''B'' 0 0 10 10]
                 [\<lparr>from_id = ''A'', to_id = ''Z''\<rparr>] (example_options 1) [(''A'', 0), (''B'', 0)])"
    by (simp add: compute_organized_layout_def layout_with_def levels_with_dangling_edge)
  also have "\<dots> = Inr [(''A'', \<lparr>pos_x = 0, pos_y = 0\<rparr>), (''B'', \<lparr>pos_x = 0, pos_y = 150\<rparr>)]"
    by (simp add: position_defs example_defs)
  finally show ?thesis .
qed

lemma layout_without_edges:
  "compute_organized_layout [mk_item ''A'' 0 0 10 10, mk_item ''B'' 0 0 10 10] []
     (Some (example_options 1))
     = Inr [(''A'', \<lparr>pos_x = 0, pos_y = 0\<rparr>), (''B'', \<lparr>pos_x = 100, pos_y = 0\<rparr>)]"
proof -
  have "compute_organized_layout [mk_item ''A'' 0 0 10 10, mk_item ''B'' 0 0 10 10] []
          (Some (example_options 1))
        = Inr (position_items (mk_item ''A'' 0 0 10 10) [mk_item ''B'' 0 0 10 10]
                 [] (example_options 1) [(''A'', 0), (''B'', 1)])"
    by (simp add: compute_organized_layout_def layout_with_def levels_without_edges)
  also have "\<dots> = Inr [(''A'', \<lparr>pos_x = 0, pos_y = 0\<rparr>), (''B'', \<lparr>pos_x = 100, pos_y = 0\<rparr>)]"
    by (simp add: position_defs example_defs)
  finally show ?thesis .
qed

text \<open>
  C3 (the code departs from the claim). Two items \<open>A\<close> and \<open>B\<close>, one grid column, and a
  single edge \<open>A \<rightarrow> Z\<close> whose target is not an item. Step 1 ignores the edge, but step 5
  tests \<^verbatim>\<open>len(edges) == 0\<close> on the unfiltered list, so the grid fallback is skipped:
  both items stay on level 0 and are stacked in one column, whereas on the edge-free input
  the fallback puts \<open>B\<close> on level \<open>1 // 1 = 1\<close>, in a second column.
\<close>

theorem dangling_edge_skips_grid_fallback:
  "level_of [mk_item ''A'' 0 0 10 10, mk_item ''B'' 0 0 10 10]
     [\<lparr>from_id = ''A'', to_id = ''Z''\<rparr>] (example_options 1) ''B'' = Some 0 \<and>
   level_of [mk_item ''A'' 0 0 10 10, mk_item ''B'' 0 0 10 10] [] (example_options 1) ''B'' = Some 1 \<and>
   compute_organized_layout [mk_item ''A'' 0 0 10 10, mk_item ''B'' 0 0 10 10]
     [\<lparr>from_id = ''A'', to_id = ''Z''\<rparr>] (Some (example_options 1))
     = Inr [(''A'', \<lparr>pos_x = 0, pos_y = 0\<rparr>), (''B'', \<lparr>pos_x = 0, pos_y = 150\<rparr>)] \<and>
   compute_organized_layout [mk_item ''A'' 0 0 10 10, mk_item ''B'' 0 0 10 10] []
     (Some (example_options 1))
     = Inr [(''A'', \<lparr>pos_x = 0, pos_y = 0\<rparr>), (''B'', \<lparr>pos_x = 100, pos_y = 0\<rparr>)]"
  by (simp add: level_of_def levels_with_dangling_edge levels_without_edges
      layout_with_dangling_edge layout_without_edges)

section \<open>Topological order of the levels\<close>

lemma levels_of_two_cycle:
  "effective_levels [mk_item ''A'' 0 0 10 10, mk_item ''B'' 0 0 10 10]
     [\<lparr>from_id = ''A'', to_id = ''B''\<rparr>, \<lparr>from_id = ''B'', to_id = ''A''\<rparr>] default_options
     = Inr [(''A'', 0), (''B'', 1)]"
  by (simp add: level_defs example_defs)

text \<open>
  Two items with the same id: the seeding loop enqueues \<open>A\<close> once per item, the in-degree
  of \<open>C\<close> is counted per id and reaches 0 while the edge \<open>D \<rightarrow> C\<close> is still pending, so
  \<open>C\<close> is dequeued (and \<open>E\<close> levelled from it) before \<open>D\<close> lifts \<open>C\<close> to level 2.
  The edge \<open>C \<rightarrow> E\<close> then joins two items of level 2.
\<close>

lemma levels_with_duplicate_ids:
  "effective_levels
     [mk_item ''A'' 0 0 10 10, mk_item ''A'' 0 0 10 10, mk_item ''B'' 0 0 10 10,
      mk_item ''C'' 0 0 10 10, mk_item ''D'' 0 0 10 10, mk_item ''E'' 0 0 10 10]
     [\<lparr>from_id = ''A'', to_id = ''C''\<rparr>, \<lparr>from_id = ''B'', to_id = ''D''\<rparr>,
      \<lparr>from_id = ''D'', to_id = ''C''\<rparr>, \<lparr>from_id = ''C'', to_id = ''E''\<rparr>] default_options
     = Inr [(''A'', 0), (''B'', 0), (''C'', 2), (''D'', 1), (''E'', 2)]"
  by (simp add: level_defs example_defs)

text \<open>
  The claim C4 fails on a cycle: for the items \<open>A\<close>, \<open>B\<close> with the edges \<open>A \<rightarrow> B\<close> and
  \<open>B \<rightarrow> A\<close> neither item has in-degree 0, step 3 gives \<open>A\<close> level 0 and \<open>B\<close> level 1, and the
  surviving edge \<open>B \<rightarrow> A\<close> runs from level 1 to level 0.
\<close>

theorem cycle_breaks_topological_order:
  "level_of [mk_item ''A'' 0 0 10 10, mk_item ''B'' 0 0 10 10]
     [\<lparr>from_id = ''A'', to_id = ''B''\<rparr>, \<lparr>from_id = ''B'', to_id = ''A''\<rparr>] default_options ''B''
     = Some 1 \<and>
   level_of [mk_item ''A'' 0 0 10 10, mk_item ''B'' 0 0 10 10]
     [\<lparr>from_id = ''A'', to_id = ''B''\<rparr>, \<lparr>from_id = ''B'', to_id = ''A''\<rparr>] default_options ''A''
     = Some 0"
  by (simp add: level_of_def levels_of_two_cycle)

section \<open>A network whose first factory is empty\<close>

lemmas driver_consts = NODE_HORIZONTAL_SPACING_def NODE_VERTICAL_SPACING_def GRID_COLUMNS_NODE_def
  CONTAINER_HORIZONTAL_SPACING_def CONTAINER_VERTICAL_SPACING_def GRID_COLUMNS_CONTAINER_def
  NETWORK_HORIZONTAL_SPACING_def NETWORK_VERTICAL_SPACING_def MACHINE_PADDING_def
  FACTORY_PADDING_def NETWORK_PADDING_def

lemma single_item_levels: "effective_levels [item] [] opts = Inr [(it_id item, 0)]"
  by (simp add: level_defs)

lemma single_item_layout:
  assumes "orientation opts = ''horizontal''"
  shows "compute_organized_layout [item] [] (Some opts) =
    Inr [(it_id item,
          \<lparr>pos_x = of_int (py_round (if start_x opts \<noteq> 0 then start_x opts else it_x item)),
           pos_y = of_int (py_round (it_y item))\<rparr>)]"
  using assms
  by (simp add: compute_organized_layout_def layout_with_def single_item_levels position_items_def
      group_by_level_def group_item_def dict_of_def has_key_def dict_get_or_def place_column_def
      make_entry_def get_parent_centers_def place_entry_def place_unpositioned_def Let_def)

lemma organize_example_machine:
  "organize_machine example_machine [] 0 0 ''horizontal'' =
     Inr (example_machine\<lparr>m_nodes := [mk_node ''a'' 55 0 200 100]\<rparr>,
          Some \<lparr>b_x = 55, b_y = 0, b_width = 200, b_height = 100\<rparr>)"
  by (simp add: organize_machine_def example_machine_def mk_node_def single_item_layout
      py_round_def driver_consts apply_position_def compute_bounds_from_nodes_def
      bounds_width_def bounds_height_def)

lemma organize_empty_factory:
  "organize_factory empty_factory [] 0 0 ''horizontal'' = Inr (empty_factory, None)"
  by (simp add: organize_factory_def empty_factory_def)

lemma organize_full_factory:
  "organize_factory full_factory [] 0 0 ''horizontal'' =
     Inr (full_factory\<lparr>f_machines := [example_machine\<lparr>m_nodes := [mk_node ''a'' 130 95 200 100]\<rparr>]\<rparr>,
          Some \<lparr>b_x = 130, b_y = 95, b_width = 200, b_height = 100\<rparr>)"
proof -
  have children:
    "organize_children (\<lambda>machine. organize_machine machine [] 0 0 ''horizontal'') m_id
       (f_machines full_factory)
     = Inr ([example_machine\<lparr>m_nodes := [mk_node ''a'' 55 0 200 100]\<rparr>],
            [(''m1'', \<lparr>b_x = 55, b_y = 0, b_width = 200, b_height = 100\<rparr>)])"
    by (simp add: full_factory_def organize_children_def organize_child_def organize_example_machine)
      (simp add: example_machine_def)
  have items:
    "machine_items [(''m1'', \<lparr>b_x = 55, b_y = 0, b_width = 200, b_height = 100\<rparr>)]
       [example_machine\<lparr>m_nodes := [mk_node ''a'' 55 0 200 100]\<rparr>]
     = [container_item ''m1'' ''machine'' 110 150 [''a'']
          \<lparr>b_x = 55, b_y = 0, b_width = 200, b_height = 100\<rparr>]"
    by (simp add: machine_items_def example_machine_def mk_node_def MACHINE_PADDING_def)
  show ?thesis
    unfolding organize_factory_def children
    apply (simp add: full_factory_def Let_def items resolve_edges_for_containers_def single_item_layout)
    apply (simp add: container_item_def py_round_def place_machine_def example_machine_def
        translate_machine_def translate_nodes_def mk_node_def machine_all_nodes_def
        compute_bounds_from_nodes_def bounds_width_def bounds_height_def driver_consts)
    done
qed

lemma organize_example_network:
  "organize_network example_network [] 0 0 ''horizontal'' = Inl KeyError"
proof -
  have children:
    "organize_children (\<lambda>factory. organize_factory factory [] 0 0 ''horizontal'') f_id
       (nw_factories example_network)
     = Inr ([empty_factory,
             full_factory\<lparr>f_machines := [example_machine\<lparr>m_nodes := [mk_node ''a'' 130 95 200 100]\<rparr>]\<rparr>],
            [(''f2'', \<lparr>b_x = 130, b_y = 95, b_width = 200, b_height = 100\<rparr>)])"
    by (simp add: example_network_def organize_children_def organize_child_def
        organize_empty_factory organize_full_factory)
      (simp add: full_factory_def)
  show ?thesis
    unfolding organize_network_def children
    by (simp add: example_network_def place_single_factory_def empty_factory_def)
qed

lemma organize_example_canvas:
  "organize_canvas remdups example_canvas ''container'' ''horizontal'' = Inl KeyError"
proof -
  have nodes: "all_nodes example_canvas = [mk_node ''a'' 0 0 200 100]"
    by (simp add: all_nodes_def network_all_nodes_def factory_all_nodes_def machine_all_nodes_def
        example_canvas_def example_network_def empty_factory_def full_factory_def
        example_machine_def)
  have conns: "all_connections remdups example_canvas = []"
    by (simp add: all_connections_def nodes node_connections_def mk_node_def)
  have "organize_networks (c_networks example_canvas) [] ''horizontal'' = Inl KeyError"
    by (simp add: organize_networks_def organize_children_def organize_child_def
        example_canvas_def organize_example_network)
  then show ?thesis
    by (simp add: organize_canvas_def nodes conns place_canvas_def)
qed

text \<open>
  C1 (the code departs from the claim). For the network whose first factory \<open>f1\<close> has no
  machines and whose second factory \<open>f2\<close> holds a node, \<^verbatim>\<open>factory_bounds\<close> has the single
  key \<open>f2\<close>; the single-factory branch takes \<^verbatim>\<open>network.factories[0]\<close>, which is \<open>f1\<close>,
  and \<^verbatim>\<open>factory_bounds[factory.id]\<close> raises \<^verbatim>\<open>KeyError\<close>. The exception leaves
  \<^verbatim>\<open>_organize_network\<close> and \<^verbatim>\<open>organize_canvas\<close>, which has no handler.
\<close>

theorem empty_first_factory_raises:
  "organize_network example_network [] 0 0 ''horizontal'' = Inl KeyError \<and>
   organize_canvas remdups example_canvas ''container'' ''horizontal'' = Inl KeyError"
  by (simp add: organize_example_network organize_example_canvas)

section \<open>The spacing level\<close>

text \<open>
  C9. \<^verbatim>\<open>organize_canvas\<close> never reads its \<^verbatim>\<open>spacing_level\<close> argument: for the same
  canvas, orientation and listing of the connection set, any two spacing levels give the
  same result, hence the same position for every node.
\<close>

theorem organize_canvas_ignores_spacing_level:
  "organize_canvas ord c spacing_level1 orient = organize_canvas ord c spacing_level2 orient"
  by (simp add: organize_canvas_def)

section \<open>The Avoider moves nodes in y only\<close>

lemma erase_y_update_y: "erase_y (n\<lparr>n_y := v\<rparr>) = erase_y n"
  by (simp add: erase_y_def)

lemma erase_y_list_update:
  "map erase_y (ns[j := (ns ! j)\<lparr>n_y := v\<rparr>]) = map erase_y ns"
proof (cases "j < length ns")
  case True
  then show ?thesis
    by (simp add: map_update erase_y_update_y list_update_same_conv)
next
  case False
  then have "length ns \<le> j" by simp
  then show ?thesis by (simp add: list_update_beyond)
qed

lemma erase_y_shift_sibling:
  "map erase_y (fst (shift_sibling tb ident direction shift node_y j st)) = map erase_y (fst st)"
  by (simp add: shift_sibling_def Let_def erase_y_list_update)

lemma erase_y_fold_shift_sibling:
  "map erase_y (fst (fold (shift_sibling tb ident direction shift node_y) js st))
     = map erase_y (fst st)"
  by (induction js arbitrary: st) (simp_all add: erase_y_shift_sibling)

lemma erase_y_nudge_node:
  "map erase_y (fst (nudge_node tb path src_id dst_id i st)) = map erase_y (fst st)"
proof -
  obtain nodes nudged nudges where st: "st = (nodes, nudged, nudges)"
    by (cases st)
  show ?thesis
    unfolding st nudge_node_def
    by (simp add: Let_def erase_y_fold_shift_sibling erase_y_list_update split: option.splits)
qed

lemma erase_y_fold_nudge_node:
  "map erase_y (fst (fold (nudge_node tb path src_id dst_id) is st)) = map erase_y (fst st)"
  by (induction "is" arbitrary: st) (simp_all add: erase_y_nudge_node)

lemma erase_y_avoid_connection:
  "map erase_y (fst (avoid_connection tb conn st)) = map erase_y (fst st)"
  by (simp add: avoid_connection_def Let_def erase_y_fold_nudge_node split: option.splits)

lemma erase_y_fold_avoid_connection:
  "map erase_y (fst (fold (avoid_connection tb) conns st)) = map erase_y (fst st)"
  by (induction conns arbitrary: st) (simp_all add: erase_y_avoid_connection)

lemma erase_y_avoid_round:
  "map erase_y (fst (avoid_round tb conns st)) = map erase_y (fst st)"
  by (simp add: avoid_round_def erase_y_fold_avoid_connection)

lemma erase_y_avoid_iterations:
  "map erase_y (fst (avoid_iterations k tb conns st)) = map erase_y (fst st)"
proof (induction k arbitrary: st)
  case 0
  then show ?case by simp
next
  case (Suc k)
  obtain nodes nudged nudges where r: "avoid_round tb conns st = (nodes, nudged, nudges)"
    by (cases "avoid_round tb conns st")
  have "map erase_y nodes = map erase_y (fst st)"
    using erase_y_avoid_round [of tb conns st] by (simp add: r)
  then show ?case
    using Suc.IH [of "(nodes, nudges)"] by (simp add: r)
qed

lemma erase_y_avoid_store:
  "map erase_y (fst (avoid_store c conns clr k)) = map erase_y (all_nodes c)"
  by (simp add: avoid_store_def erase_y_avoid_iterations)

lemma machine_all_nodes_Cons:
  "machine_all_nodes (m # ms) = m_nodes m @ machine_all_nodes ms"
  by (simp add: machine_all_nodes_def)

lemma factory_all_nodes_Cons:
  "factory_all_nodes (f # fs) = machine_all_nodes (f_machines f) @ factory_all_nodes fs"
  by (simp add: factory_all_nodes_def machine_all_nodes_def)

lemma network_all_nodes_Cons:
  "network_all_nodes (nw # nws) = factory_all_nodes (nw_factories nw) @ network_all_nodes nws"
  by (simp add: network_all_nodes_def factory_all_nodes_def machine_all_nodes_def)

lemma map_eq_append_split:
  assumes "map g ns = map g xs @ map g ys"
  shows "map g (take (length xs) ns) = map g xs" and "map g (drop (length xs) ns) = map g ys"
proof -
  have "map g (take (length xs) ns) = take (length xs) (map g ns)"
    by (simp add: take_map)
  then show "map g (take (length xs) ns) = map g xs"
    by (simp add: assms)
  have "map g (drop (length xs) ns) = drop (length xs) (map g ns)"
    by (simp add: drop_map)
  then show "map g (drop (length xs) ns) = map g ys"
    by (simp add: assms)
qed

lemma put_machine_nodes_same:
  "map g ns = map g (machine_all_nodes ms) \<Longrightarrow>
     map (map_machine_nodes g) (put_machine_nodes ms ns) = map (map_machine_nodes g) ms"
proof (induction ms arbitrary: ns)
  case Nil
  then show ?case by simp
next
  case (Cons m ms)
  have split: "map g ns = map g (m_nodes m) @ map g (machine_all_nodes ms)"
    using Cons.prems by (simp add: machine_all_nodes_Cons)
  note parts = map_eq_append_split [OF split]
  show ?case
    using Cons.IH [OF parts(2)] parts(1) by (simp add: map_machine_nodes_def)
qed

lemma put_factory_nodes_same:
  "map g ns = map g (factory_all_nodes fs) \<Longrightarrow>
     map (map_factory_nodes g) (put_factory_nodes fs ns) = map (map_factory_nodes g) fs"
proof (induction fs arbitrary: ns)
  case Nil
  then show ?case by simp
next
  case (Cons f fs)
  have split: "map g ns = map g (machine_all_nodes (f_machines f)) @ map g (factory_all_nodes fs)"
    using Cons.prems by (simp add: factory_all_nodes_Cons)
  note parts = map_eq_append_split [OF split]
  show ?case
    using Cons.IH [OF parts(2)] put_machine_nodes_same [OF parts(1)]
    by (simp add: map_factory_nodes_def)
qed

lemma put_network_nodes_same:
  "map g ns = map g (network_all_nodes nws) \<Longrightarrow>
     map (map_network_nodes g) (put_network_nodes nws ns) = map (map_network_nodes g) nws"
proof (induction nws arbitrary: ns)
  case Nil
  then show ?case by simp
next
  case (Cons nw nws)
  have split: "map g ns = map g (factory_all_nodes (nw_factories nw)) @ map g (network_all_nodes nws)"
    using Cons.prems by (simp add: network_all_nodes_Cons)
  note parts = map_eq_append_split [OF split]
  show ?case
    using Cons.IH [OF parts(2)] put_factory_nodes_same [OF parts(1)]
    by (simp add: map_network_nodes_def)
qed

lemma put_nodes_same:
  "map g ns = map g (all_nodes c) \<Longrightarrow> map_canvas_nodes g (put_nodes c ns) = map_canvas_nodes g c"
  by (simp add: map_canvas_nodes_def put_nodes_def all_nodes_def put_network_nodes_same)

text \<open>
  C8. The canvas after \<^verbatim>\<open>_avoid_connectors\<close> and the canvas before it are equal once
  every node's y is blanked: the title, the theme, the networks, factories and machines
  with their ids, labels and order, and of every node the id, type, content, label, x,
  width, height, inputs, outputs and style are unchanged.
\<close>

theorem avoid_connectors_changes_only_y:
  "map_canvas_nodes erase_y (fst (avoid_connectors ord c clr max_iterations))
     = map_canvas_nodes erase_y c"
  by (simp add: avoid_connectors_def Let_def put_nodes_same erase_y_avoid_store)

section \<open>The displacement budget of the Avoider\<close>

lemma py_round_le: "v \<le> of_int n \<Longrightarrow> py_round v \<le> n"
proof -
  assume le: "v \<le> of_int n"
  have fl: "of_int \<lfloor>v\<rfloor> \<le> v" "v < of_int \<lfloor>v\<rfloor> + 1"
    by linarith+
  have "\<lfloor>v\<rfloor> \<le> n"
    using le by (simp add: floor_le_iff)
  moreover have "\<lfloor>v\<rfloor> + 1 \<le> n" if "v - of_int \<lfloor>v\<rfloor> \<ge> 1 / 2"
  proof -
    have "of_int \<lfloor>v\<rfloor> < v" using that by linarith
    then have "of_int \<lfloor>v\<rfloor> < (of_int n :: real)" using le by linarith
    then show ?thesis by simp
  qed
  ultimately show ?thesis
    by (auto simp: py_round_def Let_def)
qed

lemma py_round_ge: "of_int n \<le> v \<Longrightarrow> n \<le> py_round v"
proof -
  assume "of_int n \<le> v"
  then have "n \<le> \<lfloor>v\<rfloor>"
    by (simp add: le_floor_iff)
  then show ?thesis
    by (auto simp: py_round_def Let_def)
qed

lemma round_keeps_budget:
  assumes "\<bar>z - orig\<bar> \<le> MAX_NUDGE_DISPLACEMENT" and "orig \<in> \<int>"
  shows "\<bar>of_int (py_round z) - orig\<bar> \<le> MAX_NUDGE_DISPLACEMENT"
proof -
  obtain k :: int where k: "orig = of_int k"
    using assms(2) by (auto elim: Ints_cases)
  have "z \<le> of_int (k + 400)" and "of_int (k - 400) \<le> z"
    using assms(1) by (simp_all add: k MAX_NUDGE_DISPLACEMENT_def abs_le_iff)
  then have "py_round z \<le> k + 400" and "k - 400 \<le> py_round z"
    by (simp_all add: py_round_le py_round_ge)
  then have "real_of_int (py_round z) \<le> of_int k + 400" and "of_int k - 400 \<le> real_of_int (py_round z)"
    by linarith+
  then show ?thesis
    by (simp add: k MAX_NUDGE_DISPLACEMENT_def abs_le_iff)
qed

lemma nudge_shift_budget:
  assumes "nudge_shift clr orig node path direction = Some shift"
    and "\<bar>n_y node - orig\<bar> \<le> MAX_NUDGE_DISPLACEMENT"
  shows "\<bar>n_y node + shift - orig\<bar> \<le> MAX_NUDGE_DISPLACEMENT"
  using assms
  by (auto simp: nudge_shift_def Let_def MAX_NUDGE_DISPLACEMENT_def
      split: list.splits if_splits)

lemma map_of_fold_update:
  "map_of (fold (\<lambda>kv d. AList.update (fst kv) (snd kv) d) kvs d) = map_of d ++ map_of (rev kvs)"
proof (induction kvs arbitrary: d)
  case Nil
  then show ?case by simp
next
  case (Cons kv kvs)
  have "map_of (fold (\<lambda>kv d. AList.update (fst kv) (snd kv) d) (kv # kvs) d)
          = map_of (AList.update (fst kv) (snd kv) d) ++ map_of (rev kvs)"
    by (simp add: Cons.IH)
  also have "map_of (AList.update (fst kv) (snd kv) d) = map_of d ++ map_of [kv]"
    by (cases kv) (simp add: update_conv')
  also have "(map_of d ++ map_of [kv]) ++ map_of (rev kvs) = map_of d ++ map_of (rev (kv # kvs))"
    by (simp del: map_of.simps)
  finally show ?case .
qed

lemma map_of_dict_of: "map_of (dict_of kvs) = map_of (rev kvs)"
  by (simp add: dict_of_def map_of_fold_update)

lemma map_of_dict_of_distinct:
  assumes "distinct (map fst kvs)" and "i < length kvs"
  shows "map_of (dict_of kvs) (fst (kvs ! i)) = Some (snd (kvs ! i))"
proof -
  have "distinct (map fst (rev kvs))"
    using assms(1) by (simp add: rev_map [symmetric])
  moreover have "(fst (kvs ! i), snd (kvs ! i)) \<in> set (rev kvs)"
    using assms(2) by simp
  ultimately show ?thesis
    by (simp add: map_of_dict_of)
qed

lemma original_y_lookup:
  assumes "distinct (map n_id (all_nodes c))" and "i < length (all_nodes c)"
  shows "map_of (original_y (build_tables c clr)) (n_id (all_nodes c ! i)) = Some (n_y (all_nodes c ! i))"
proof -
  let ?kvs = "map (\<lambda>n. (n_id n, n_y n)) (all_nodes c)"
  have "distinct (map fst ?kvs)"
    using assms(1) by (simp add: comp_def)
  moreover have "i < length ?kvs"
    using assms(2) by simp
  ultimately have "map_of (dict_of ?kvs) (fst (?kvs ! i)) = Some (snd (?kvs ! i))"
    by (rule map_of_dict_of_distinct)
  then show ?thesis
    using assms(2) by (simp add: build_tables_def)
qed

lemma within_budget_refl: "within_budget s0 s0"
  by (simp add: within_budget_def list_all2_conv_all_nth MAX_NUDGE_DISPLACEMENT_def)

lemma within_budget_length: "within_budget s0 s \<Longrightarrow> length s = length s0"
  by (auto simp: within_budget_def dest: list_all2_lengthD)

lemma within_budget_id:
  assumes "within_budget s0 s" and "j < length s"
  shows "n_id (s ! j) = n_id (s0 ! j)"
proof -
  have len: "length s = length s0"
    using assms(1) by (rule within_budget_length)
  have "map erase_y s ! j = map erase_y s0 ! j"
    using assms(1) by (simp add: within_budget_def)
  then have "erase_y (s ! j) = erase_y (s0 ! j)"
    using assms(2) len by simp
  then have "n_id (erase_y (s ! j)) = n_id (erase_y (s0 ! j))"
    by simp
  then show ?thesis
    by (simp add: erase_y_def)
qed

lemma within_budget_nth:
  "within_budget s0 s \<Longrightarrow> j < length s \<Longrightarrow> \<bar>n_y (s ! j) - n_y (s0 ! j)\<bar> \<le> MAX_NUDGE_DISPLACEMENT"
  by (simp add: within_budget_def list_all2_conv_all_nth)

lemma within_budget_update:
  assumes "within_budget s0 s" and "\<bar>v - n_y (s0 ! j)\<bar> \<le> MAX_NUDGE_DISPLACEMENT"
  shows "within_budget s0 (s[j := (s ! j)\<lparr>n_y := v\<rparr>])"
proof (cases "j < length s")
  case True
  have "list_all2 (\<lambda>before after. \<bar>n_y after - n_y before\<bar> \<le> MAX_NUDGE_DISPLACEMENT) s0
          (s[j := (s ! j)\<lparr>n_y := v\<rparr>])"
    using assms True by (auto simp: within_budget_def list_all2_conv_all_nth nth_list_update)
  then show ?thesis
    using assms(1) by (simp add: within_budget_def erase_y_list_update)
next
  case False
  then have "length s \<le> j" by simp
  then show ?thesis
    using assms(1) by (simp add: list_update_beyond)
qed

text \<open>What the tables must provide: the recorded y of every node, an integer.\<close>

lemma shift_sibling_budget:
  assumes inv: "within_budget s0 (fst st)"
    and orig: "\<And>i. i < length s0 \<Longrightarrow> map_of (original_y tb) (n_id (s0 ! i)) = Some (n_y (s0 ! i))"
    and ints: "\<And>i. i < length s0 \<Longrightarrow> n_y (s0 ! i) \<in> \<int>"
  shows "within_budget s0 (fst (shift_sibling tb ident direction shift node_y j st))"
proof (cases "j < length (fst st)")
  case False
  then have "length (fst st) \<le> j" by simp
  then have "fst (shift_sibling tb ident direction shift node_y j st) = fst st"
    by (simp add: shift_sibling_def Let_def list_update_beyond)
  then show ?thesis using inv by simp
next
  case True
  let ?sib = "fst st ! j"
  have j0: "j < length s0"
    using True within_budget_length [OF inv] by simp
  have "n_id ?sib = n_id (s0 ! j)"
    using inv True by (rule within_budget_id)
  then have sib_orig: "dict_get_or (original_y tb) (n_id ?sib) (n_y ?sib) = n_y (s0 ! j)"
    using orig [OF j0] by (simp add: dict_get_or_def)
  have moved: "within_budget s0 ((fst st)[j := ?sib\<lparr>n_y := of_int (py_round (n_y ?sib + shift))\<rparr>])"
    if "\<not> \<bar>n_y ?sib + shift - n_y (s0 ! j)\<bar> > MAX_NUDGE_DISPLACEMENT"
  proof -
    have "\<bar>n_y ?sib + shift - n_y (s0 ! j)\<bar> \<le> MAX_NUDGE_DISPLACEMENT"
      using that by simp
    then have "\<bar>of_int (py_round (n_y ?sib + shift)) - n_y (s0 ! j)\<bar> \<le> MAX_NUDGE_DISPLACEMENT"
      using ints [OF j0] by (rule round_keeps_budget)
    with inv show ?thesis
      by (rule within_budget_update)
  qed
  show ?thesis
    using inv moved by (simp add: shift_sibling_def Let_def sib_orig)
qed

lemma fold_shift_sibling_budget:
  assumes inv: "within_budget s0 (fst st)"
    and orig: "\<And>i. i < length s0 \<Longrightarrow> map_of (original_y tb) (n_id (s0 ! i)) = Some (n_y (s0 ! i))"
    and ints: "\<And>i. i < length s0 \<Longrightarrow> n_y (s0 ! i) \<in> \<int>"
  shows "within_budget s0 (fst (fold (shift_sibling tb ident direction shift node_y) js st))"
  using inv
proof (induction js arbitrary: st)
  case Nil
  then show ?case by simp
next
  case (Cons j js)
  have "within_budget s0 (fst (shift_sibling tb ident direction shift node_y j st))"
    using Cons.prems orig ints by (rule shift_sibling_budget)
  then show ?case
    using Cons.IH by simp
qed

lemma nudge_node_budget:
  assumes inv: "within_budget s0 (fst st)"
    and orig: "\<And>i. i < length s0 \<Longrightarrow> map_of (original_y tb) (n_id (s0 ! i)) = Some (n_y (s0 ! i))"
    and ints: "\<And>i. i < length s0 \<Longrightarrow> n_y (s0 ! i) \<in> \<int>"
    and i: "i < length (fst st)"
  shows "within_budget s0 (fst (nudge_node tb path src_id dst_id i st))"
proof -
  obtain nodes nudged nudges where st: "st = (nodes, nudged, nudges)"
    by (cases st)
  have inv': "within_budget s0 nodes" and i': "i < length nodes"
    using inv i by (simp_all add: st)
  have i0: "i < length s0"
    using i' within_budget_length [OF inv'] by simp
  let ?node = "nodes ! i"
  have lookup: "map_of (original_y tb) (n_id ?node) = Some (n_y (s0 ! i))"
    using orig [OF i0] within_budget_id [OF inv' i'] by simp
  have nudged_ok:
    "within_budget s0 (fst (fold (shift_sibling tb ident direction shift node_y) js
        (nodes[i := ?node\<lparr>n_y := of_int (py_round (n_y ?node + shift))\<rparr>], nudged')))"
    if "nudge_shift (clearance tb) (n_y (s0 ! i)) ?node path direction' = Some shift"
    for shift direction direction' ident node_y js nudged'
  proof -
    have "\<bar>n_y ?node + shift - n_y (s0 ! i)\<bar> \<le> MAX_NUDGE_DISPLACEMENT"
      using that within_budget_nth [OF inv' i'] by (rule nudge_shift_budget)
    then have "\<bar>of_int (py_round (n_y ?node + shift)) - n_y (s0 ! i)\<bar> \<le> MAX_NUDGE_DISPLACEMENT"
      using ints [OF i0] by (rule round_keeps_budget)
    with inv' have "within_budget s0 (nodes[i := ?node\<lparr>n_y := of_int (py_round (n_y ?node + shift))\<rparr>])"
      by (rule within_budget_update)
    then show ?thesis
      using orig ints by (intro fold_shift_sibling_budget) simp_all
  qed
  show ?thesis
    unfolding st nudge_node_def
    using inv' nudged_ok by (simp add: Let_def lookup split: option.splits)
qed


lemma fold_nudge_node_budget:
  assumes inv: "within_budget s0 (fst st)"
    and orig: "\<And>i. i < length s0 \<Longrightarrow> map_of (original_y tb) (n_id (s0 ! i)) = Some (n_y (s0 ! i))"
    and ints: "\<And>i. i < length s0 \<Longrightarrow> n_y (s0 ! i) \<in> \<int>"
    and range: "\<And>i. i \<in> set indices \<Longrightarrow> i < length s0"
  shows "within_budget s0 (fst (fold (nudge_node tb path src_id dst_id) indices st))"
  using inv range
proof (induction indices arbitrary: st)
  case Nil
  then show ?case by simp
next
  case (Cons i indices)
  have "i < length (fst st)"
    using Cons.prems within_budget_length [of s0 "fst st"] by simp
  with Cons.prems(1) orig ints
  have "within_budget s0 (fst (nudge_node tb path src_id dst_id i st))"
    by (intro nudge_node_budget) simp_all
  then show ?case
    using Cons.IH Cons.prems(2) by simp
qed

lemma avoid_connection_budget:
  assumes inv: "within_budget s0 (fst st)"
    and orig: "\<And>i. i < length s0 \<Longrightarrow> map_of (original_y tb) (n_id (s0 ! i)) = Some (n_y (s0 ! i))"
    and ints: "\<And>i. i < length s0 \<Longrightarrow> n_y (s0 ! i) \<in> \<int>"
  shows "within_budget s0 (fst (avoid_connection tb conn st))"
proof -
  have "within_budget s0 (fst (fold (nudge_node tb path (fst conn) (snd conn)) [0..<length (fst st)] st))"
    for path
    using inv orig ints within_budget_length [OF inv]
    by (intro fold_nudge_node_budget) simp_all
  then show ?thesis
    using inv by (simp add: avoid_connection_def Let_def split: option.splits)
qed

lemma fold_avoid_connection_budget:
  assumes inv: "within_budget s0 (fst st)"
    and orig: "\<And>i. i < length s0 \<Longrightarrow> map_of (original_y tb) (n_id (s0 ! i)) = Some (n_y (s0 ! i))"
    and ints: "\<And>i. i < length s0 \<Longrightarrow> n_y (s0 ! i) \<in> \<int>"
  shows "within_budget s0 (fst (fold (avoid_connection tb) conns st))"
  using inv
proof (induction conns arbitrary: st)
  case Nil
  then show ?case by simp
next
  case (Cons conn conns)
  have "within_budget s0 (fst (avoid_connection tb conn st))"
    using Cons.prems orig ints by (rule avoid_connection_budget)
  then show ?case
    using Cons.IH by simp
qed

lemma avoid_iterations_budget:
  assumes inv: "within_budget s0 (fst st)"
    and orig: "\<And>i. i < length s0 \<Longrightarrow> map_of (original_y tb) (n_id (s0 ! i)) = Some (n_y (s0 ! i))"
    and ints: "\<And>i. i < length s0 \<Longrightarrow> n_y (s0 ! i) \<in> \<int>"
  shows "within_budget s0 (fst (avoid_iterations k tb conns st))"
  using inv
proof (induction k arbitrary: st)
  case 0
  then show ?case by simp
next
  case (Suc k)
  obtain nodes nudged nudges where r: "avoid_round tb conns st = (nodes, nudged, nudges)"
    by (cases "avoid_round tb conns st")
  have "within_budget s0 (fst (fold (avoid_connection tb) conns (fst st, {}, snd st)))"
    using Suc.prems orig ints by (intro fold_avoid_connection_budget) simp_all
  then have "within_budget s0 nodes"
    using r by (simp add: avoid_round_def)
  then show ?case
    using Suc.IH [of "(nodes, nudges)"] by (simp add: r)
qed

lemma avoid_store_budget:
  assumes "distinct (map n_id (all_nodes c))" and "list_all (\<lambda>n. n_y n \<in> \<int>) (all_nodes c)"
  shows "within_budget (all_nodes c) (fst (avoid_store c conns clr k))"
proof -
  have "within_budget (all_nodes c)
          (fst (avoid_iterations k (build_tables c clr) conns (all_nodes c, 0)))"
  proof (rule avoid_iterations_budget)
    show "within_budget (all_nodes c) (fst (all_nodes c, 0::int))"
      by (simp add: within_budget_refl)
    show "map_of (original_y (build_tables c clr)) (n_id (all_nodes c ! i)) = Some (n_y (all_nodes c ! i))"
      if "i < length (all_nodes c)" for i
      using assms(1) that by (rule original_y_lookup)
    show "n_y (all_nodes c ! i) \<in> \<int>" if "i < length (all_nodes c)" for i
      using assms(2) that by (simp add: list_all_length)
  qed
  then show ?thesis
    by (simp add: avoid_store_def within_budget_refl)
qed

lemma machine_all_nodes_put:
  "length ns = length (machine_all_nodes ms) \<Longrightarrow> machine_all_nodes (put_machine_nodes ms ns) = ns"
proof (induction ms arbitrary: ns)
  case Nil
  then show ?case by (simp add: machine_all_nodes_def)
next
  case (Cons m ms)
  have "length (drop (length (m_nodes m)) ns) = length (machine_all_nodes ms)"
    using Cons.prems by (simp add: machine_all_nodes_Cons)
  then have "machine_all_nodes (put_machine_nodes ms (drop (length (m_nodes m)) ns))
               = drop (length (m_nodes m)) ns"
    by (rule Cons.IH)
  then show ?case
    by (simp add: machine_all_nodes_Cons)
qed

lemma factory_all_nodes_put:
  "length ns = length (factory_all_nodes fs) \<Longrightarrow> factory_all_nodes (put_factory_nodes fs ns) = ns"
proof (induction fs arbitrary: ns)
  case Nil
  then show ?case by (simp add: factory_all_nodes_def machine_all_nodes_def)
next
  case (Cons f fs)
  let ?k = "length (machine_all_nodes (f_machines f))"
  have "length (take ?k ns) = ?k" and "length (drop ?k ns) = length (factory_all_nodes fs)"
    using Cons.prems by (simp_all add: factory_all_nodes_Cons)
  then have "machine_all_nodes (put_machine_nodes (f_machines f) (take ?k ns)) = take ?k ns"
    and "factory_all_nodes (put_factory_nodes fs (drop ?k ns)) = drop ?k ns"
    by (simp_all add: machine_all_nodes_put Cons.IH)
  then show ?case
    by (simp add: factory_all_nodes_Cons)
qed

lemma network_all_nodes_put:
  "length ns = length (network_all_nodes nws) \<Longrightarrow> network_all_nodes (put_network_nodes nws ns) = ns"
proof (induction nws arbitrary: ns)
  case Nil
  then show ?case by (simp add: network_all_nodes_def factory_all_nodes_def machine_all_nodes_def)
next
  case (Cons nw nws)
  let ?k = "length (factory_all_nodes (nw_factories nw))"
  have "length (take ?k ns) = ?k" and "length (drop ?k ns) = length (network_all_nodes nws)"
    using Cons.prems by (simp_all add: network_all_nodes_Cons)
  then have "factory_all_nodes (put_factory_nodes (nw_factories nw) (take ?k ns)) = take ?k ns"
    and "network_all_nodes (put_network_nodes nws (drop ?k ns)) = drop ?k ns"
    by (simp_all add: factory_all_nodes_put Cons.IH)
  then show ?case
    by (simp add: network_all_nodes_Cons)
qed

lemma all_nodes_put_nodes:
  "length ns = length (all_nodes c) \<Longrightarrow> all_nodes (put_nodes c ns) = ns"
  by (simp add: all_nodes_def put_nodes_def network_all_nodes_put)

subsection \<open>A start off the integer grid\<close>

lemma cap_canvas_nodes: "all_nodes (cap_canvas y0) = [node_a, node_c, node_b y0]"
  by (simp add: cap_canvas_def all_nodes_def network_all_nodes_def factory_all_nodes_def
      machine_all_nodes_def)

lemma cap_canvas_connections: "all_connections remdups (cap_canvas y0) = [(''a'', ''c'')]"
  by (simp add: all_connections_def cap_canvas_nodes node_connections_def node_a_def node_b_def
      node_c_def mk_node_def)

lemma cap_canvas_machines:
  "all_machines (cap_canvas y0) =
     [\<lparr>m_id = ''m1'', m_label = None, m_description = None, m_nodes = [node_a, node_c]\<rparr>,
      \<lparr>m_id = ''m2'', m_label = None, m_description = None, m_nodes = [node_b y0]\<rparr>]"
  by (simp add: all_machines_def cap_canvas_def)

lemma cap_canvas_tables: "build_tables (cap_canvas y0) 20 = cap_tables y0"
  by (simp add: build_tables_def cap_canvas_nodes cap_canvas_machines build_node_to_machine_map_def
      dict_of_def cap_tables_def node_a_def node_b_def node_c_def mk_node_def numeral_2_eq_2)

lemma straight_path_sampled: "sample_points node_a node_c 24 = straight_path"
  by (simp add: sample_points_def select_ports_def control_points_def bezier_point_def
      node_a_def node_c_def mk_node_def upto.simps power3_eq_cube power2_eq_square
      straight_path_def)

lemma node_b_inside_ys: "inside_ys (node_b y0) straight_path = [500, 500, 500]"
  by (simp add: inside_ys_def straight_path_def node_b_def mk_node_def)

lemma node_b_hit:
  "0 \<le> y0 \<Longrightarrow> y0 \<le> 500 \<Longrightarrow> node_intersects_path (node_b y0) straight_path NODE_BBOX_MARGIN"
  by (simp add: node_intersects_path_def straight_path_def node_b_def mk_node_def
      NODE_BBOX_MARGIN_def)

lemma node_b_direction:
  "0 \<le> y0 \<Longrightarrow> y0 \<le> 500 \<Longrightarrow> compute_nudge_direction (node_b y0) straight_path = 1"
  by (simp add: compute_nudge_direction_def node_b_inside_ys) (simp add: node_b_def mk_node_def)

lemma node_b_moved: "(node_b y0)\<lparr>n_y := v\<rparr> = node_b v" "n_y (node_b y0) = y0"
  by (simp_all add: node_b_def mk_node_def)

lemma node_b_first_shift: "nudge_shift 20 (3 / 5) (node_b (3 / 5)) straight_path 1 = Some 400"
  by (simp add: nudge_shift_def node_b_inside_ys MAX_NUDGE_DISPLACEMENT_def node_b_moved Let_def)

lemma node_b_second_shift: "nudge_shift 20 (3 / 5) (node_b 401) straight_path 1 = None"
  by (simp add: nudge_shift_def node_b_inside_ys MAX_NUDGE_DISPLACEMENT_def node_b_moved Let_def)

lemma cap_node_ids:
  "n_id node_a = ''a''" "n_id (node_b y0) = ''b''" "n_id node_c = ''c''"
  by (simp_all add: node_a_def node_b_def node_c_def mk_node_def)

lemma nudge_node_b_first:
  "nudge_node (cap_tables (3 / 5)) straight_path ''a'' ''c'' 2 ([node_a, node_c, node_b (3 / 5)], {}, 0)
     = ([node_a, node_c, node_b 401], {''b''}, 1)"
  using node_b_hit [of "3 / 5"] node_b_direction [of "3 / 5"] node_b_first_shift
  by (simp add: nudge_node_def cap_node_ids node_b_moved cap_tables_def py_round_def
      dict_get_or_def shift_sibling_def)

lemma nudge_node_b_second:
  "nudge_node (cap_tables (3 / 5)) straight_path ''a'' ''c'' 2 ([node_a, node_c, node_b 401], {}, 1)
     = ([node_a, node_c, node_b 401], {}, 1)"
  using node_b_hit [of 401] node_b_direction [of 401] node_b_second_shift
  by (simp add: nudge_node_def cap_node_ids cap_tables_def)

lemma nudge_node_endpoint:
  "n_id (nodes ! i) = src_id \<or> n_id (nodes ! i) = dst_id \<Longrightarrow>
     nudge_node tb path src_id dst_id i (nodes, nudged, k) = (nodes, nudged, k)"
  by (auto simp add: nudge_node_def)

lemma three_indices: "[0..<Suc (Suc (Suc 0))] = [0, 1, 2]"
  by (simp add: upt_conv_Cons numeral_2_eq_2)

lemma cap_node_map: "node_map (cap_tables y0) = [(''a'', 0), (''c'', 1), (''b'', 2)]"
  by (simp add: cap_tables_def)

lemma cap_first_round:
  "avoid_round (cap_tables (3 / 5)) [(''a'', ''c'')] ([node_a, node_c, node_b (3 / 5)], 0)
     = ([node_a, node_c, node_b 401], {''b''}, 1)"
  by (simp add: avoid_round_def avoid_connection_def cap_node_map straight_path_sampled
      three_indices nudge_node_endpoint cap_node_ids nudge_node_b_first del: upt_Suc)

lemma cap_second_round:
  "avoid_round (cap_tables (3 / 5)) [(''a'', ''c'')] ([node_a, node_c, node_b 401], 1)
     = ([node_a, node_c, node_b 401], {}, 1)"
  by (simp add: avoid_round_def avoid_connection_def cap_node_map straight_path_sampled
      three_indices nudge_node_endpoint cap_node_ids nudge_node_b_second del: upt_Suc)

lemma cap_canvas_avoided:
  "all_nodes (fst (avoid_connectors remdups (cap_canvas (3 / 5)) CONNECTOR_CLEARANCE MAX_NUDGE_ITERATIONS))
     = [node_a, node_c, node_b 401]"
proof -
  have "avoid_store (cap_canvas (3 / 5)) [(''a'', ''c'')] 20 6 = ([node_a, node_c, node_b 401], 1)"
    by (simp add: avoid_store_def cap_canvas_nodes cap_canvas_tables cap_first_round
        cap_second_round numeral_eq_Suc)
  then show ?thesis
    by (simp add: avoid_connectors_def cap_canvas_connections CONNECTOR_CLEARANCE_def
        MAX_NUDGE_ITERATIONS_def all_nodes_put_nodes cap_canvas_nodes)
qed

text \<open>
  C5 (the code departs from the claim). The claim, and the source's comments on
  \<^verbatim>\<open>MAX_NUDGE_DISPLACEMENT\<close> (\<open>maximum total vertical displacement\<close>) and on the clamp
  (\<open>so total displacement = MAX\<close>), say that no node ends further than 400 from the y it had
  when the pass began. The clamp is applied to the shift, and the rounding comes after it:
  the node \<open>b\<close> starts at \<open>y = 0.6\<close>, its shift \<open>519.4\<close> is clamped to \<open>400\<close>, and
  \<^verbatim>\<open>node.y = round(node.y + shift)\<close> stores \<open>round(400.6) = 401\<close>. The node ends \<open>400.4\<close>
  from its start, so the bound fails on this canvas.
\<close>

theorem avoid_connectors_exceeds_cap_off_grid:
  "\<not> list_all2 (\<lambda>before after. \<bar>n_y after - n_y before\<bar> \<le> MAX_NUDGE_DISPLACEMENT)
       (all_nodes (cap_canvas (3 / 5)))
       (all_nodes (fst (avoid_connectors remdups (cap_canvas (3 / 5)) CONNECTOR_CLEARANCE
                          MAX_NUDGE_ITERATIONS)))"
  by (simp add: cap_canvas_avoided cap_canvas_nodes node_b_moved MAX_NUDGE_DISPLACEMENT_def)

text \<open>
  On the integer grid the rounding cannot leave the budget. For every canvas whose node
  ids are unique and whose y-coordinates are integers when the pass starts, every node
  ends within \<open>MAX_NUDGE_DISPLACEMENT = 400\<close> of the y it had when the pass began, for every
  listing of the connections, clearance and number of iterations.
\<close>

theorem avoid_connectors_displacement_cap:
  assumes "distinct (map n_id (all_nodes c))"
    and "list_all (\<lambda>n. n_y n \<in> \<int>) (all_nodes c)"
  shows "list_all2 (\<lambda>before after. \<bar>n_y after - n_y before\<bar> \<le> MAX_NUDGE_DISPLACEMENT)
           (all_nodes c) (all_nodes (fst (avoid_connectors ord c clr max_iterations)))"
proof -
  let ?res = "avoid_store c (all_connections ord c) clr max_iterations"
  have budget: "within_budget (all_nodes c) (fst ?res)"
    using assms by (rule avoid_store_budget)
  then have "length (fst ?res) = length (all_nodes c)"
    by (rule within_budget_length)
  then have "all_nodes (fst (avoid_connectors ord c clr max_iterations)) = fst ?res"
    by (simp add: avoid_connectors_def Let_def all_nodes_put_nodes)
  then show ?thesis
    using budget by (simp add: within_budget_def)
qed

theorem avoid_connectors_displacement_cap_witness:
  "list_all2 (\<lambda>before after. \<bar>n_y after - n_y before\<bar> \<le> MAX_NUDGE_DISPLACEMENT)
     (all_nodes (cap_canvas 0))
     (all_nodes (fst (avoid_connectors remdups (cap_canvas 0) CONNECTOR_CLEARANCE
                        MAX_NUDGE_ITERATIONS)))"
  using avoid_connectors_displacement_cap
    [of "cap_canvas 0" remdups CONNECTOR_CLEARANCE MAX_NUDGE_ITERATIONS]
  by (simp add: cap_canvas_nodes cap_node_ids node_a_def node_b_def node_c_def mk_node_def)

section \<open>Levels follow the edges of an acyclic input\<close>

subsection \<open>Dictionaries as maps\<close>

lemma has_key_update: "has_key (AList.update k v d) k' \<longleftrightarrow> k' = k \<or> has_key d k'"
  by (simp add: has_key_def update_conv')

lemma dict_get_or_update:
  "dict_get_or (AList.update k v d) k' dflt = (if k' = k then v else dict_get_or d k' dflt)"
  by (simp add: dict_get_or_def update_conv')

lemma has_key_dict_of: "has_key (dict_of kvs) k \<longleftrightarrow> k \<in> fst ` set kvs"
  by (simp add: has_key_def map_of_dict_of map_of_eq_None_iff)

lemma dict_get_or_dict_of_const:
  assumes "\<And>kv. kv \<in> set kvs \<Longrightarrow> snd kv = c"
  shows "dict_get_or (dict_of kvs) k c = c"
proof (cases "map_of (rev kvs) k")
  case None
  then show ?thesis by (simp add: dict_get_or_def map_of_dict_of)
next
  case (Some v)
  then have "(k, v) \<in> set kvs"
    by (auto dest: map_of_SomeD)
  then have "v = c"
    using assms by fastforce
  then show ?thesis
    using Some by (simp add: dict_get_or_def map_of_dict_of)
qed

subsection \<open>Step 1 builds the graph of the surviving edges\<close>

lemma build_graph_fold:
  fixes items :: "OrganizeItem list"
  defines "start \<equiv> (dict_of (map (\<lambda>item. (it_id item, [])) items),
                     dict_of (map (\<lambda>item. (it_id item, 0)) items))"
  shows "(\<forall>k. has_key (fst (fold add_edge es start)) k \<longleftrightarrow> k \<in> item_ids items) \<and>
         (\<forall>k. has_key (snd (fold add_edge es start)) k \<longleftrightarrow> k \<in> item_ids items) \<and>
         (\<forall>u. dict_get_or (fst (fold add_edge es start)) u []
                = map to_id (filter (\<lambda>e. from_id e = u \<and> surviving items e) es)) \<and>
         (\<forall>v. dict_get_or (snd (fold add_edge es start)) v 0
                = int (length (filter (\<lambda>e. to_id e = v \<and> surviving items e) es)))"
proof (induction es rule: rev_induct)
  case Nil
  have "dict_get_or (dict_of (map (\<lambda>item. (it_id item, [])) items)) u [] = ([] :: string list)" for u
    by (rule dict_get_or_dict_of_const) auto
  moreover have "dict_get_or (dict_of (map (\<lambda>item. (it_id item, 0)) items)) v 0 = (0 :: int)" for v
    by (rule dict_get_or_dict_of_const) auto
  ultimately show ?case
    by (simp add: start_def has_key_dict_of item_ids_def image_image)
next
  case (snoc e es)
  let ?g = "fold add_edge es start"
  have alive: "has_key (fst ?g) (from_id e) \<and> has_key (snd ?g) (to_id e) \<longleftrightarrow> surviving items e"
    using snoc.IH by (simp add: surviving_def)
  show ?case
  proof (cases "surviving items e")
    case True
    then have step: "fold add_edge (es @ [e]) start
      = (AList.update (from_id e) (dict_get_or (fst ?g) (from_id e) [] @ [to_id e]) (fst ?g),
         AList.update (to_id e) (dict_get_or (snd ?g) (to_id e) 0 + 1) (snd ?g))"
      using alive by (simp add: add_edge_def)
    have "from_id e \<in> item_ids items" and "to_id e \<in> item_ids items"
      using True by (simp_all add: surviving_def)
    then show ?thesis
      unfolding step using snoc.IH True
      by (auto simp: has_key_update dict_get_or_update)
  next
    case False
    then have "fold add_edge (es @ [e]) start = ?g"
      using alive by (auto simp: add_edge_def)
    then show ?thesis
      using snoc.IH False by auto
  qed
qed

lemma build_graph_keys:
  "has_key (fst (build_graph items edges)) k \<longleftrightarrow> k \<in> item_ids items"
  "has_key (snd (build_graph items edges)) k \<longleftrightarrow> k \<in> item_ids items"
  using build_graph_fold [of edges items] by (simp_all add: build_graph_def)

lemma build_graph_adjacency:
  "dict_get_or (fst (build_graph items edges)) u []
     = map to_id (filter (\<lambda>e. from_id e = u) (filter (surviving items) edges))"
  using build_graph_fold [of edges items] by (simp add: build_graph_def conj_commute)

lemma build_graph_indegree:
  "dict_get_or (snd (build_graph items edges)) v 0
     = int (length (filter (\<lambda>e. to_id e = v) (filter (surviving items) edges)))"
  using build_graph_fold [of edges items] by (simp add: build_graph_def conj_commute)

subsection \<open>Step 2 seeds the queue with the sources\<close>

lemma fold_seed_source:
  "fold (seed_source indegree) xs lq =
     (fold (\<lambda>item l. AList.update (it_id item) 0 l)
        (filter (\<lambda>item. dict_get_or indegree (it_id item) 0 = 0) xs) (fst lq),
      snd lq @ map it_id (filter (\<lambda>item. dict_get_or indegree (it_id item) 0 = 0) xs))"
proof (induction xs arbitrary: lq)
  case Nil
  then show ?case by simp
next
  case (Cons x xs)
  then show ?case
    by (simp add: seed_source_def)
qed

lemma map_of_fold_update_zero:
  "map_of (fold (\<lambda>item l. AList.update (it_id item) (0::int) l) xs l) v
     = (if v \<in> it_id ` set xs then Some 0 else map_of l v)"
  by (induction xs arbitrary: l) (auto simp: update_conv')

lemma seed_sources_queue:
  "snd (seed_sources indegree items)
     = map it_id (filter (\<lambda>item. dict_get_or indegree (it_id item) 0 = 0)
                    (sort_key (\<lambda>it. (it_x it, it_y it)) items))"
  by (simp add: seed_sources_def fold_seed_source)

lemma seed_sources_levels:
  "map_of (fst (seed_sources indegree items)) v
     = (if v \<in> item_ids items \<and> dict_get_or indegree v 0 = 0 then Some 0 else None)"
  by (auto simp: seed_sources_def fold_seed_source map_of_fold_update_zero item_ids_def)

lemma distinct_map_insort_key:
  "distinct (map g (insort_key k x xs)) \<longleftrightarrow> g x \<notin> g ` set xs \<and> distinct (map g xs)"
  by (induction xs) (auto simp: set_insort_key)

lemma distinct_ids_sort_key:
  "distinct (map g (sort_key k xs)) \<longleftrightarrow> distinct (map g xs)"
  by (induction xs) (simp_all add: distinct_map_insort_key)

lemma seed_sources_distinct:
  assumes "distinct (map it_id items)"
  shows "distinct (snd (seed_sources indegree items))"
  unfolding seed_sources_queue
  using assms by (intro distinct_map_filter) (simp add: distinct_ids_sort_key)

lemma seed_sources_set:
  "set (snd (seed_sources indegree items))
     = {v \<in> item_ids items. dict_get_or indegree v 0 = 0}"
  by (auto simp: seed_sources_queue item_ids_def)


subsection \<open>One relaxation\<close>

lemma relax_indegree:
  "dict_get_or (fst (snd (relax cl t st))) v 0
     = dict_get_or (fst (snd st)) v 0 - (if v = t then 1 else 0)"
  by (cases st) (simp add: relax_def Let_def dict_get_or_update)

lemma fold_relax_indegree:
  "dict_get_or (fst (snd (fold (relax cl) ts st))) v 0
     = dict_get_or (fst (snd st)) v 0 - int (count_list ts v)"
  by (induction ts arbitrary: st) (simp_all add: relax_indegree)

lemma relax_queue:
  "snd (snd (relax cl t st))
     = (if dict_get_or (fst (snd st)) t 0 - 1 = 0 then snd (snd st) @ [t] else snd (snd st))"
  by (cases st) (simp add: relax_def Let_def)

lemma relax_queue_ok:
  assumes "queue_ok processed st"
  shows "queue_ok processed (relax cl t st)"
proof -
  have smaller: "dict_get_or (fst (snd (relax cl t st))) v 0 \<le> 0"
    if "dict_get_or (fst (snd st)) v 0 \<le> 0" for v
    using that by (auto simp: relax_indegree)
  have old: "dict_get_or (fst (snd (relax cl t st))) v 0 \<le> 0"
    if "v \<in> set (processed @ snd (snd st))" for v
    using assms that by (intro smaller) (simp add: queue_ok_def)
  show ?thesis
  proof (cases "dict_get_or (fst (snd st)) t 0 - 1 = 0")
    case True
    then have "\<not> dict_get_or (fst (snd st)) t 0 \<le> 0"
      by simp
    then have fresh: "t \<notin> set (processed @ snd (snd st))"
      using assms by (auto simp: queue_ok_def)
    have "dict_get_or (fst (snd (relax cl t st))) t 0 \<le> 0"
      using True by (simp add: relax_indegree)
    then have "\<forall>v \<in> set (processed @ snd (snd st) @ [t]).
                 dict_get_or (fst (snd (relax cl t st))) v 0 \<le> 0"
      using old by auto
    moreover have "distinct (processed @ snd (snd st) @ [t])"
      using assms fresh by (auto simp: queue_ok_def)
    ultimately show ?thesis
      using True by (simp add: queue_ok_def relax_queue)
  next
    case False
    have "\<forall>v \<in> set (processed @ snd (snd st)).
            dict_get_or (fst (snd (relax cl t st))) v 0 \<le> 0"
      using old by blast
    moreover have "distinct (processed @ snd (snd st))"
      using assms by (simp add: queue_ok_def)
    ultimately show ?thesis
      using False by (simp add: queue_ok_def relax_queue)
  qed
qed

lemma relax_ready_queued:
  assumes "ready_queued ids processed st"
  shows "ready_queued ids processed (relax cl t st)"
  using assms by (auto simp: ready_queued_def relax_queue relax_indegree split: if_splits)

lemma fold_relax_queue_ok:
  "queue_ok processed st \<Longrightarrow> queue_ok processed (fold (relax cl) ts st)"
  by (induction ts arbitrary: st) (simp_all add: relax_queue_ok)

lemma fold_relax_ready_queued:
  "ready_queued ids processed st \<Longrightarrow> ready_queued ids processed (fold (relax cl) ts st)"
  by (induction ts arbitrary: st) (simp_all add: relax_ready_queued)

lemma fold_relax_queue_subset:
  "set (snd (snd (fold (relax cl) ts st))) \<subseteq> set (snd (snd st)) \<union> set ts"
proof (induction ts arbitrary: st)
  case Nil
  then show ?case by simp
next
  case (Cons t ts)
  have "set (snd (snd (relax cl t st))) \<subseteq> set (snd (snd st)) \<union> {t}"
    by (auto simp: relax_queue split: if_splits)
  then show ?case
    using Cons.IH [of "relax cl t st"] by auto
qed

lemma relax_levels_other:
  "v \<noteq> t \<Longrightarrow> map_of (fst (relax cl t st)) v = map_of (fst st) v"
  by (cases st) (simp add: relax_def Let_def update_conv' split: option.splits)

lemma relax_levels_target:
  "\<exists>l'. map_of (fst (relax cl t st)) t = Some l' \<and> cl + 1 \<le> l'"
  by (cases st) (auto simp: relax_def Let_def update_conv' split: option.splits)

lemma relax_levels_mono:
  "map_of (fst st) v = Some l \<Longrightarrow> \<exists>l'. map_of (fst (relax cl t st)) v = Some l' \<and> l \<le> l'"
  by (cases st) (auto simp: relax_def Let_def update_conv' split: option.splits)

lemma fold_relax_levels_other:
  "v \<notin> set ts \<Longrightarrow> map_of (fst (fold (relax cl) ts st)) v = map_of (fst st) v"
  by (induction ts arbitrary: st) (simp_all add: relax_levels_other)

lemma fold_relax_levels_mono:
  "map_of (fst st) v = Some l \<Longrightarrow> \<exists>l'. map_of (fst (fold (relax cl) ts st)) v = Some l' \<and> l \<le> l'"
proof (induction ts arbitrary: st l)
  case Nil
  then show ?case by simp
next
  case (Cons t ts)
  obtain l1 where l1: "map_of (fst (relax cl t st)) v = Some l1" "l \<le> l1"
    using relax_levels_mono [OF Cons.prems] by blast
  obtain l2 where "map_of (fst (fold (relax cl) ts (relax cl t st))) v = Some l2" "l1 \<le> l2"
    using Cons.IH [OF l1(1)] by blast
  with l1(2) show ?case by auto
qed

lemma fold_relax_levels_target:
  "v \<in> set ts \<Longrightarrow> \<exists>l'. map_of (fst (fold (relax cl) ts st)) v = Some l' \<and> cl + 1 \<le> l'"
proof (induction ts arbitrary: st)
  case Nil
  then show ?case by simp
next
  case (Cons t ts)
  show ?case
  proof (cases "v = t")
    case True
    obtain l1 where l1: "map_of (fst (relax cl t st)) v = Some l1" "cl + 1 \<le> l1"
      using relax_levels_target [of cl t st] True by blast
    obtain l2 where "map_of (fst (fold (relax cl) ts (relax cl t st))) v = Some l2" "l1 \<le> l2"
      using fold_relax_levels_mono [OF l1(1)] by blast
    with l1(2) show ?thesis by auto
  next
    case False
    then have "v \<in> set ts" using Cons.prems by simp
    then show ?thesis
      using Cons.IH by simp
  qed
qed


subsection \<open>Dequeuing one id keeps the invariant\<close>

lemma count_list_map_filter:
  "count_list (map g xs) v = length (filter (\<lambda>x. g x = v) xs)"
  by (induction xs) simp_all

lemma length_filter_split:
  "length (filter A xs) = length (filter (\<lambda>x. A x \<and> B x) xs) + length (filter (\<lambda>x. A x \<and> \<not> B x) xs)"
  by (induction xs) simp_all

lemma kahn_step:
  assumes inv: "kahn_inv ids surv P (levels, indeg, current # q)"
    and ends: "\<And>e. e \<in> set surv \<Longrightarrow> from_id e \<in> ids \<and> to_id e \<in> ids"
    and ts: "ts = map to_id (filter (\<lambda>e. from_id e = current) surv)"
  shows "kahn_inv ids surv (P @ [current])
           (fold (relax (dict_get_or levels current 0)) ts (levels, indeg, q))"
proof -
  let ?cl = "dict_get_or levels current 0"
  let ?st = "fold (relax ?cl) ts (levels, indeg, q)"
  have parts:
    "queue_ok P (levels, indeg, current # q) \<and>
     ready_queued ids P (levels, indeg, current # q) \<and>
     set (P @ current # q) \<subseteq> ids \<and>
     (\<forall>v. dict_get_or indeg v 0
            = int (length (filter (\<lambda>e. to_id e = v \<and> from_id e \<notin> set P) surv))) \<and>
     (\<forall>v \<in> set (P @ current # q). has_key levels v) \<and>
     (\<forall>e \<in> set surv. from_id e \<in> set P \<longrightarrow>
        (\<exists>lu lv. map_of levels (from_id e) = Some lu \<and> map_of levels (to_id e) = Some lv \<and> lu < lv))"
    using inv unfolding kahn_inv_def by simp
  have qok: "queue_ok P (levels, indeg, current # q)"
    and ready: "ready_queued ids P (levels, indeg, current # q)"
    and sub: "set (P @ current # q) \<subseteq> ids"
    using parts by blast+
  have cnt: "dict_get_or indeg v 0
                = int (length (filter (\<lambda>e. to_id e = v \<and> from_id e \<notin> set P) surv))" for v
    using parts by blast
  have has: "has_key levels v" if "v \<in> set (P @ current # q)" for v
    using parts that by blast
  have ord: "\<exists>lu lv. map_of levels (from_id e) = Some lu \<and> map_of levels (to_id e) = Some lv \<and> lu < lv"
    if "e \<in> set surv" "from_id e \<in> set P" for e
    using parts that by blast
  have fresh: "current \<notin> set P"
    using qok by (simp add: queue_ok_def)
  have low: "dict_get_or indeg v 0 \<le> 0" if "v \<in> set (P @ current # q)" for v
    using qok that by (auto simp: queue_ok_def)
  have targets: "t \<notin> set (P @ current # q)" if t_in: "t \<in> set ts" for t
  proof
    assume "t \<in> set (P @ current # q)"
    then have "dict_get_or indeg t 0 \<le> 0"
      by (rule low)
    moreover obtain e where "e \<in> set surv" "from_id e = current" "to_id e = t"
      using t_in by (auto simp: ts)
    then have "e \<in> set (filter (\<lambda>e. to_id e = t \<and> from_id e \<notin> set P) surv)"
      using fresh by simp
    then have "0 < length (filter (\<lambda>e. to_id e = t \<and> from_id e \<notin> set P) surv)"
      by (rule length_pos_if_in_set)
    then have "0 < dict_get_or indeg t 0"
      by (simp add: cnt)
    ultimately show False by simp
  qed
  have "queue_ok (P @ [current]) (levels, indeg, q)"
    using qok by (auto simp: queue_ok_def)
  then have 1: "queue_ok (P @ [current]) ?st"
    by (rule fold_relax_queue_ok)
  have "ready_queued ids (P @ [current]) (levels, indeg, q)"
    using ready by (auto simp: ready_queued_def)
  then have 2: "ready_queued ids (P @ [current]) ?st"
    by (rule fold_relax_ready_queued)
  have qsub: "set (snd (snd ?st)) \<subseteq> set q \<union> set ts"
    using fold_relax_queue_subset [of ?cl ts "(levels, indeg, q)"] by simp
  have "set ts \<subseteq> ids"
    using ends by (auto simp: ts)
  then have 3: "set ((P @ [current]) @ snd (snd ?st)) \<subseteq> ids"
    using sub qsub by auto
  have 4: "dict_get_or (fst (snd ?st)) v 0
             = int (length (filter (\<lambda>e. to_id e = v \<and> from_id e \<notin> set (P @ [current])) surv))" for v
  proof -
    define n_all where "n_all = length (filter (\<lambda>e. to_id e = v \<and> from_id e \<notin> set P) surv)"
    define n_cur where
      "n_cur = length (filter (\<lambda>e. (to_id e = v \<and> from_id e \<notin> set P) \<and> from_id e = current) surv)"
    define n_rest where
      "n_rest = length (filter (\<lambda>e. (to_id e = v \<and> from_id e \<notin> set P) \<and> \<not> from_id e = current) surv)"
    have split: "n_all = n_cur + n_rest"
      unfolding n_all_def n_cur_def n_rest_def by (rule length_filter_split)
    have "count_list ts v = length (filter (\<lambda>e. from_id e = current \<and> to_id e = v) surv)"
      by (simp add: ts count_list_map_filter)
    also have "\<dots> = n_cur"
      unfolding n_cur_def using fresh by (intro arg_cong [where f = length] filter_cong) auto
    finally have a: "count_list ts v = n_cur" .
    have b: "length (filter (\<lambda>e. to_id e = v \<and> from_id e \<notin> set (P @ [current])) surv) = n_rest"
      unfolding n_rest_def by (intro arg_cong [where f = length] filter_cong) auto
    have "dict_get_or (fst (snd ?st)) v 0 = dict_get_or indeg v 0 - int (count_list ts v)"
      by (simp add: fold_relax_indegree)
    also have "dict_get_or indeg v 0 = int n_all"
      unfolding n_all_def by (rule cnt)
    finally have "dict_get_or (fst (snd ?st)) v 0 = int n_rest"
      using split a by simp
    then show ?thesis
      by (simp only: b)
  qed
  have kept: "\<exists>l'. map_of (fst ?st) v = Some l' \<and> l \<le> l'" if "map_of levels v = Some l" for v l
    using fold_relax_levels_mono [of "(levels, indeg, q)" v l ?cl ts] that by simp
  have 5: "has_key (fst ?st) v" if "v \<in> set ((P @ [current]) @ snd (snd ?st))" for v
  proof (cases "v \<in> set (P @ current # q)")
    case True
    then obtain l where "map_of levels v = Some l"
      using has [of v] by (auto simp: has_key_def)
    then show ?thesis
      using kept by (fastforce simp: has_key_def)
  next
    case False
    then have "v \<in> set ts"
      using that qsub by auto
    then show ?thesis
      using fold_relax_levels_target [of v ts ?cl "(levels, indeg, q)"] by (auto simp: has_key_def)
  qed
  have same: "map_of (fst ?st) v = map_of levels v" if "v \<in> set (P @ [current])" for v
  proof -
    have "v \<notin> set ts"
      using targets that by auto
    then show ?thesis
      using fold_relax_levels_other [of v ts ?cl "(levels, indeg, q)"] by simp
  qed
  have 6: "\<exists>lu lv. map_of (fst ?st) (from_id e) = Some lu \<and> map_of (fst ?st) (to_id e) = Some lv \<and> lu < lv"
    if e: "e \<in> set surv" and src: "from_id e \<in> set (P @ [current])" for e
  proof (cases "from_id e \<in> set P")
    case True
    then obtain lu lv where l: "map_of levels (from_id e) = Some lu" "map_of levels (to_id e) = Some lv" "lu < lv"
      using ord [OF e] by blast
    obtain lv' where "map_of (fst ?st) (to_id e) = Some lv'" "lv \<le> lv'"
      using kept [OF l(2)] by blast
    moreover have "map_of (fst ?st) (from_id e) = Some lu"
      using same [OF src] l(1) by simp
    ultimately show ?thesis
      using l(3) by auto
  next
    case False
    then have cur: "from_id e = current"
      using src by simp
    obtain c where c: "map_of levels current = Some c"
      using has [of current] by (auto simp: has_key_def)
    then have cl: "?cl = c"
      by (simp add: dict_get_or_def)
    have "to_id e \<in> set ts"
      using e cur by (auto simp: ts)
    then obtain lv where "map_of (fst ?st) (to_id e) = Some lv" "?cl + 1 \<le> lv"
      using fold_relax_levels_target [of "to_id e" ts ?cl "(levels, indeg, q)"] by blast
    moreover have "map_of (fst ?st) (from_id e) = Some c"
      using same [OF src] c cur by simp
    ultimately show ?thesis
      using cl by auto
  qed
  show ?thesis
    unfolding kahn_inv_def using 1 2 3 4 5 6 by blast
qed


subsection \<open>The loop as a whole\<close>

lemma kahn_loop_inv:
  assumes adj: "\<And>u. dict_get_or adjacency u [] = map to_id (filter (\<lambda>e. from_id e = u) surv)"
    and ends: "\<And>e. e \<in> set surv \<Longrightarrow> from_id e \<in> ids \<and> to_id e \<in> ids"
    and inv: "kahn_inv ids surv P st"
  shows "\<exists>P'. kahn_inv ids surv P' (kahn_loop adjacency st) \<and> snd (snd (kahn_loop adjacency st)) = []"
  using adj inv
proof (induction adjacency st arbitrary: P rule: kahn_loop.induct)
  case (1 adjacency levels indegree)
  then show ?case by auto
next
  case (2 adjacency levels indegree current queue)
  have "kahn_inv ids surv (P @ [current])
          (fold (relax (dict_get_or levels current 0)) (dict_get_or adjacency current [])
             (levels, indegree, queue))"
    using "2.prems"(2) ends "2.prems"(1) [of current] by (rule kahn_step)
  then show ?case
    using "2.IH" [OF "2.prems"(1)] by simp
qed

lemma all_processed:
  fixes rank :: "string \<Rightarrow> nat"
  assumes inv: "kahn_inv ids surv P (levels, indeg, [])"
    and ends: "\<And>e. e \<in> set surv \<Longrightarrow> from_id e \<in> ids \<and> to_id e \<in> ids"
    and acyclic: "\<And>e. e \<in> set surv \<Longrightarrow> rank (from_id e) < rank (to_id e)"
  shows "v \<in> ids \<Longrightarrow> v \<in> set P"
proof (induction v rule: measure_induct_rule [of rank])
  case (less v)
  have "filter (\<lambda>e. to_id e = v \<and> from_id e \<notin> set P) surv = []"
  proof (rule ccontr)
    assume "filter (\<lambda>e. to_id e = v \<and> from_id e \<notin> set P) surv \<noteq> []"
    then obtain e where e: "e \<in> set surv" "to_id e = v" "from_id e \<notin> set P"
      by (auto simp: filter_empty_conv)
    have "rank (from_id e) < rank v" and "from_id e \<in> ids"
      using acyclic [OF e(1)] ends [OF e(1)] e(2) by simp_all
    then have "from_id e \<in> set P"
      by (rule less.IH)
    with e(3) show False by simp
  qed
  moreover have "dict_get_or indeg v 0
      = int (length (filter (\<lambda>e. to_id e = v \<and> from_id e \<notin> set P) surv))"
    using inv by (simp add: kahn_inv_def)
  ultimately have "dict_get_or indeg v 0 = 0"
    by simp
  moreover have "ready_queued ids P (levels, indeg, [])"
    using inv by (simp add: kahn_inv_def)
  ultimately show ?case
    using less.prems by (auto simp: ready_queued_def)
qed

lemma kahn_initial:
  assumes "distinct (map it_id items)"
  shows "kahn_inv (item_ids items) (filter (surviving items) edges) []
           (fst (seed_sources (snd (build_graph items edges)) items),
            snd (build_graph items edges),
            snd (seed_sources (snd (build_graph items edges)) items))"
proof -
  let ?ind = "snd (build_graph items edges)"
  have "has_key (fst (seed_sources ?ind items)) v"
    if "v \<in> set (snd (seed_sources ?ind items))" for v
    using that by (simp add: has_key_def seed_sources_levels seed_sources_set)
  moreover have "dict_get_or ?ind v 0
      = int (length (filter (\<lambda>e. to_id e = v \<and> from_id e \<notin> set []) (filter (surviving items) edges)))"
    for v
    using build_graph_indegree [of items edges v] by (simp add: conj_commute)
  ultimately show ?thesis
    using seed_sources_distinct [OF assms, of ?ind]
    by (auto simp: kahn_inv_def queue_ok_def ready_queued_def seed_sources_set)
qed

text \<open>After the sort every item has a level, and the levels rise along the surviving edges.\<close>

lemma kahn_sorted_out:
  fixes rank :: "string \<Rightarrow> nat"
  assumes dist: "distinct (map it_id items)"
    and acyclic: "\<And>e. e \<in> set edges \<Longrightarrow> surviving items e \<Longrightarrow> rank (from_id e) < rank (to_id e)"
  defines "g \<equiv> build_graph items edges"
  defines "out \<equiv> kahn_loop (fst g) (fst (seed_sources (snd g) items), snd g, snd (seed_sources (snd g) items))"
  shows "\<forall>v \<in> item_ids items. has_key (fst out) v"
    and "\<forall>e \<in> set edges. surviving items e \<longrightarrow>
           (\<exists>lu lv. map_of (fst out) (from_id e) = Some lu \<and> map_of (fst out) (to_id e) = Some lv \<and> lu < lv)"
proof -
  let ?surv = "filter (surviving items) edges"
  have ends: "from_id e \<in> item_ids items \<and> to_id e \<in> item_ids items" if "e \<in> set ?surv" for e
    using that by (simp add: surviving_def)
  have ranks: "rank (from_id e) < rank (to_id e)" if "e \<in> set ?surv" for e
    using that acyclic by simp
  have adj: "dict_get_or (fst g) u [] = map to_id (filter (\<lambda>e. from_id e = u) ?surv)" for u
    unfolding g_def by (rule build_graph_adjacency)
  obtain P where P: "kahn_inv (item_ids items) ?surv P out" "snd (snd out) = []"
    using kahn_loop_inv [OF adj ends kahn_initial [OF dist, of edges]]
    unfolding out_def g_def by blast
  obtain levels indeg where out: "out = (levels, indeg, [])"
    using P(2) by (cases out) auto
  have inv: "kahn_inv (item_ids items) ?surv P (levels, indeg, [])"
    using P(1) out by simp
  have all: "v \<in> set P" if "v \<in> item_ids items" for v
    using inv ends ranks that by (rule all_processed)
  show "\<forall>v \<in> item_ids items. has_key (fst out) v"
    using inv all by (auto simp: kahn_inv_def out)
  show "\<forall>e \<in> set edges. surviving items e \<longrightarrow>
           (\<exists>lu lv. map_of (fst out) (from_id e) = Some lu \<and> map_of (fst out) (to_id e) = Some lv \<and> lu < lv)"
  proof (intro ballI impI)
    fix e assume e: "e \<in> set edges" "surviving items e"
    then have "e \<in> set ?surv" by simp
    moreover have "from_id e \<in> set P"
      using e(2) all by (simp add: surviving_def)
    ultimately show "\<exists>lu lv. map_of (fst out) (from_id e) = Some lu \<and> map_of (fst out) (to_id e) = Some lv \<and> lu < lv"
      using inv unfolding kahn_inv_def out by (metis fst_conv)
  qed
qed


subsection \<open>Steps 3 to 5\<close>

lemma resolve_unresolved_all_levelled:
  assumes "\<forall>v \<in> item_ids items. has_key levels v"
  shows "resolve_unresolved items edges levels = levels"
proof -
  have "filter (\<lambda>item. \<not> has_key levels (it_id item)) items = []"
    using assms by (auto simp: filter_empty_conv item_ids_def)
  then show ?thesis
    by (simp add: resolve_unresolved_def)
qed

lemma map_of_map_values:
  "map_of (map (\<lambda>kv. (fst kv, g (snd kv))) xs) v = map_option g (map_of xs v)"
  by (induction xs) auto

lemma remap_index:
  assumes "distinct us" and "i < length us"
  shows "dict_get_or (zip us (map int [0..<length us])) (us ! i) d = int i"
proof -
  have "map_of (zip us (map int [0..<length us])) (us ! i) = Some (map int [0..<length us] ! i)"
    using assms by (intro map_of_zip_nth) simp_all
  then show ?thesis
    using assms(2) by (simp add: dict_get_or_def)
qed

lemma normalize_levels_lookup:
  assumes "map_of levels v = Some l" and "us = sort (remdups (map snd levels))"
  shows "\<exists>i. i < length us \<and> us ! i = l \<and> map_of (normalize_levels levels) v = Some (int i)"
proof -
  have "(v, l) \<in> set levels"
    using assms(1) by (rule map_of_SomeD)
  then have "l \<in> snd ` set levels"
    by force
  then have "l \<in> set us"
    by (simp add: assms(2))
  then obtain i where i: "i < length us" "us ! i = l"
    by (auto simp: in_set_conv_nth)
  have "distinct us"
    by (simp add: assms(2))
  then have "dict_get_or (zip us (map int [0..<length us])) (us ! i) l = int i"
    using i(1) by (rule remap_index)
  then have "dict_get_or (zip us (map int [0..<length us])) l l = int i"
    by (simp add: i(2))
  then have "map_of (normalize_levels levels) v = Some (int i)"
    using assms(1) unfolding normalize_levels_def Let_def assms(2) [symmetric]
    by (simp add: map_of_map_values
        [where g = "\<lambda>l. dict_get_or (zip us (map int [0..<length us])) l l"])
  with i show ?thesis by blast
qed

lemma normalize_levels_strict_mono:
  assumes "map_of levels u = Some lu" and "map_of levels v = Some lv" and "lu < lv"
  shows "\<exists>nu nv. map_of (normalize_levels levels) u = Some nu \<and>
                  map_of (normalize_levels levels) v = Some nv \<and> nu < nv"
proof -
  define us where "us = sort (remdups (map snd levels))"
  obtain i where i: "i < length us" "us ! i = lu" "map_of (normalize_levels levels) u = Some (int i)"
    using normalize_levels_lookup [OF assms(1) us_def] by blast
  obtain j where j: "j < length us" "us ! j = lv" "map_of (normalize_levels levels) v = Some (int j)"
    using normalize_levels_lookup [OF assms(2) us_def] by blast
  have sorted: "sorted us"
    by (simp add: us_def)
  have "i < j"
  proof (rule ccontr)
    assume "\<not> i < j"
    then have "j \<le> i" by simp
    then have "us ! j \<le> us ! i"
      using sorted i(1) by (simp add: sorted_nth_mono)
    then show False
      using assms(3) i(2) j(2) by simp
  qed
  then show ?thesis
    using i(3) j(3) by simp
qed

lemma normalize_levels_zero:
  assumes "map_of levels v = Some 0" and nonneg: "\<And>kv. kv \<in> set levels \<Longrightarrow> 0 \<le> snd kv"
  shows "map_of (normalize_levels levels) v = Some 0"
proof -
  define us where "us = sort (remdups (map snd levels))"
  obtain i where i: "i < length us" "us ! i = 0" "map_of (normalize_levels levels) v = Some (int i)"
    using normalize_levels_lookup [OF assms(1) us_def] by blast
  have sorted: "sorted us" and distinct: "distinct us" and elems: "set us = snd ` set levels"
    by (simp_all add: us_def)
  have "i = 0"
  proof (rule ccontr)
    assume "i \<noteq> 0"
    then have pos: "0 < i" by simp
    have first: "0 < length us"
      using i(1) by linarith
    then have "us ! 0 \<in> set us"
      by (rule nth_mem)
    then have "0 \<le> us ! 0"
      using nonneg by (auto simp: elems)
    moreover have "us ! 0 \<le> us ! i"
      using sorted i(1) by (simp add: sorted_nth_mono)
    ultimately have "us ! 0 = us ! i"
      using i(2) by simp
    then have "0 = i"
      using distinct first i(1) by (simp add: nth_eq_iff_index_eq)
    with pos show False by simp
  qed
  with i(3) show ?thesis by simp
qed

subsection \<open>Levels are not negative and sources stay on level 0\<close>

lemma set_update_subset: "set (AList.update k v d) \<subseteq> insert (k, v) (set d)"
  by (induction d) auto

lemma update_nonneg:
  assumes "\<forall>kv \<in> set d. (0::int) \<le> snd kv" and "0 \<le> v"
  shows "\<forall>kv \<in> set (AList.update k v d). 0 \<le> snd kv"
  using assms set_update_subset [of k v d] by auto

lemma relax_nonneg:
  assumes "\<forall>kv \<in> set (fst st). 0 \<le> snd kv" and "0 \<le> cl"
  shows "\<forall>kv \<in> set (fst (relax cl t st)). 0 \<le> snd kv"
proof -
  obtain levels indegree queue where st: "st = (levels, indegree, queue)"
    by (cases st)
  have "\<forall>kv \<in> set (AList.update t (cl + 1) levels). 0 \<le> snd kv"
    using assms by (intro update_nonneg) (simp_all add: st)
  then show ?thesis
    using assms(1) by (simp add: st relax_def Let_def split: option.splits)
qed

lemma fold_relax_nonneg:
  assumes "\<forall>kv \<in> set (fst st). 0 \<le> snd kv" and "0 \<le> cl"
  shows "\<forall>kv \<in> set (fst (fold (relax cl) ts st)). 0 \<le> snd kv"
  using assms(1)
proof (induction ts arbitrary: st)
  case Nil
  then show ?case by simp
next
  case (Cons t ts)
  have "\<forall>kv \<in> set (fst (relax cl t st)). 0 \<le> snd kv"
    using Cons.prems assms(2) by (rule relax_nonneg)
  then show ?case
    using Cons.IH by simp
qed

lemma dict_get_or_nonneg:
  assumes "\<forall>kv \<in> set d. (0::int) \<le> snd kv"
  shows "0 \<le> dict_get_or d k 0"
proof (cases "map_of d k")
  case None
  then show ?thesis by (simp add: dict_get_or_def)
next
  case (Some l)
  then have "(k, l) \<in> set d" by (rule map_of_SomeD)
  then show ?thesis
    using assms Some by (auto simp: dict_get_or_def)
qed

lemma kahn_loop_nonneg:
  "\<forall>kv \<in> set (fst st). 0 \<le> snd kv \<Longrightarrow> \<forall>kv \<in> set (fst (kahn_loop adjacency st)). 0 \<le> snd kv"
proof (induction adjacency st rule: kahn_loop.induct)
  case (1 adjacency levels indegree)
  then show ?case by simp
next
  case (2 adjacency levels indegree current queue)
  have levels: "\<forall>kv \<in> set levels. 0 \<le> snd kv"
    using "2.prems" by simp
  then have "0 \<le> dict_get_or levels current 0"
    by (rule dict_get_or_nonneg)
  with levels have "\<forall>kv \<in> set (fst (fold (relax (dict_get_or levels current 0))
      (dict_get_or adjacency current []) (levels, indegree, queue))). 0 \<le> snd kv"
    by (intro fold_relax_nonneg) simp_all
  then show ?case
    using "2.IH" by simp
qed

lemma seed_sources_nonneg: "\<forall>kv \<in> set (fst (seed_sources indegree items)). 0 \<le> snd kv"
proof -
  have "\<forall>kv \<in> set l. 0 \<le> snd kv \<Longrightarrow>
        \<forall>kv \<in> set (fold (\<lambda>item l. AList.update (it_id item) (0::int) l) xs l). 0 \<le> snd kv" for xs l
  proof (induction xs arbitrary: l)
    case Nil
    then show ?case by simp
  next
    case (Cons x xs)
    have "\<forall>kv \<in> set (AList.update (it_id x) 0 l). 0 \<le> snd kv"
      using Cons.prems by (intro update_nonneg) simp_all
    then show ?case
      using Cons.IH by simp
  qed
  from this [of "[]"] show ?thesis
    by (simp add: seed_sources_def fold_seed_source)
qed

lemma fold_max_ge: "(l::int) \<le> fold max ls l"
proof (induction ls arbitrary: l)
  case Nil
  then show ?case by simp
next
  case (Cons x ls)
  have "l \<le> max x l" by simp
  also have "\<dots> \<le> fold max ls (max x l)" by (rule Cons.IH)
  finally show ?case by simp
qed

lemma incoming_levels_Nil: "incoming_levels [] levels ident = []"
  unfolding incoming_levels_def by simp

lemma incoming_levels_Cons:
  "incoming_levels (x # es) levels ident =
     (if to_id x = ident then (case map_of levels (from_id x) of None \<Rightarrow> [] | Some l \<Rightarrow> [l]) else [])
     @ incoming_levels es levels ident"
  unfolding incoming_levels_def by simp

lemma incoming_levels_nonneg:
  assumes "\<forall>kv \<in> set levels. 0 \<le> snd kv" and "l \<in> set (incoming_levels edges levels ident)"
  shows "0 \<le> l"
proof -
  have "l \<in> set (incoming_levels es levels ident) \<Longrightarrow>
        \<exists>e::OrganizeEdge. map_of levels (from_id e) = Some l" for es
  proof (induction es)
    case Nil
    then show ?case by (simp add: incoming_levels_Nil)
  next
    case (Cons x es)
    show ?case
    proof (cases "l \<in> set (incoming_levels es levels ident)")
      case True
      then show ?thesis by (rule Cons.IH)
    next
      case False
      then have "to_id x = ident \<and> map_of levels (from_id x) = Some l"
        using Cons.prems
        by (cases "to_id x = ident"; cases "map_of levels (from_id x)")
          (simp_all add: incoming_levels_Cons)
      then show ?thesis by blast
    qed
  qed
  then obtain e :: OrganizeEdge where "map_of levels (from_id e) = Some l"
    using assms(2) by blast
  then have "(from_id e, l) \<in> set levels"
    by (rule map_of_SomeD)
  then show ?thesis
    using assms(1) by auto
qed

lemma resolve_item_nonneg:
  assumes "\<forall>kv \<in> set levels. 0 \<le> snd kv"
  shows "\<forall>kv \<in> set (resolve_item edges item levels). 0 \<le> snd kv"
proof (cases "incoming_levels edges levels (it_id item)")
  case Nil
  then show ?thesis
    using update_nonneg [OF assms, of 0 "it_id item"] by (simp add: resolve_item_def)
next
  case (Cons l ls)
  then have "0 \<le> l"
    using incoming_levels_nonneg [OF assms, of l edges "it_id item"] by simp
  then have "0 \<le> fold max ls l + 1"
    using fold_max_ge [of l ls] by simp
  then show ?thesis
    using update_nonneg [OF assms, of "fold max ls l + 1" "it_id item"] Cons
    by (simp add: resolve_item_def)
qed

lemma fold_resolve_item_nonneg:
  "\<forall>kv \<in> set levels. 0 \<le> snd kv \<Longrightarrow>
     \<forall>kv \<in> set (fold (resolve_item edges) xs levels). 0 \<le> snd kv"
proof (induction xs arbitrary: levels)
  case Nil
  then show ?case by simp
next
  case (Cons x xs)
  have "\<forall>kv \<in> set (resolve_item edges x levels). 0 \<le> snd kv"
    using Cons.prems by (rule resolve_item_nonneg)
  then show ?case
    using Cons.IH by simp
qed

lemma raw_levels_nonneg: "\<forall>kv \<in> set (raw_levels items edges). 0 \<le> snd kv"
  unfolding raw_levels_def Let_def resolve_unresolved_def
  by (intro fold_resolve_item_nonneg kahn_loop_nonneg) (simp add: seed_sources_nonneg)

lemma kahn_loop_levels_other:
  assumes "\<And>u. s \<notin> set (dict_get_or adjacency u [])"
  shows "map_of (fst (kahn_loop adjacency st)) s = map_of (fst st) s"
  using assms
proof (induction adjacency st rule: kahn_loop.induct)
  case (1 adjacency levels indegree)
  then show ?case by simp
next
  case (2 adjacency levels indegree current queue)
  have "map_of (fst (fold (relax (dict_get_or levels current 0)) (dict_get_or adjacency current [])
          (levels, indegree, queue))) s = map_of levels s"
    using "2.prems" [of current] fold_relax_levels_other [of s] by simp
  then show ?case
    using "2.IH" [OF "2.prems"] by simp
qed

lemma resolve_item_other:
  "it_id item \<noteq> s \<Longrightarrow> map_of (resolve_item edges item levels) s = map_of levels s"
  by (simp add: resolve_item_def update_conv' split: list.splits)

lemma fold_resolve_item_other:
  "\<forall>item \<in> set xs. it_id item \<noteq> s \<Longrightarrow>
     map_of (fold (resolve_item edges) xs levels) s = map_of levels s"
  by (induction xs arbitrary: levels) (simp_all add: resolve_item_other)

lemma resolve_unresolved_keeps:
  assumes "has_key levels s"
  shows "map_of (resolve_unresolved items edges levels) s = map_of levels s"
  unfolding resolve_unresolved_def
  using assms by (intro fold_resolve_item_other) auto

lemma raw_levels_source:
  assumes s: "s \<in> item_ids items"
    and none: "\<And>e. e \<in> set edges \<Longrightarrow> surviving items e \<Longrightarrow> to_id e \<noteq> s"
  shows "map_of (raw_levels items edges) s = Some 0"
proof -
  let ?g = "build_graph items edges"
  let ?seed = "seed_sources (snd ?g) items"
  let ?out = "kahn_loop (fst ?g) (fst ?seed, snd ?g, snd ?seed)"
  have "filter (\<lambda>e. to_id e = s) (filter (surviving items) edges) = []"
    using none by (auto simp: filter_empty_conv)
  then have "dict_get_or (snd ?g) s 0 = 0"
    by (simp add: build_graph_indegree del: filter_filter)
  then have seeded: "map_of (fst ?seed) s = Some 0"
    using s by (simp add: seed_sources_levels)
  have "s \<notin> set (dict_get_or (fst ?g) u [])" for u
    using none by (auto simp: build_graph_adjacency)
  then have "map_of (fst ?out) s = map_of (fst ?seed) s"
    using kahn_loop_levels_other [of s "fst ?g" "(fst ?seed, snd ?g, snd ?seed)"] by simp
  then have out: "map_of (fst ?out) s = Some 0"
    using seeded by simp
  then have "has_key (fst ?out) s"
    by (simp add: has_key_def)
  then have "map_of (resolve_unresolved items edges (fst ?out)) s = Some 0"
    using out by (simp add: resolve_unresolved_keeps)
  then show ?thesis
    by (simp add: raw_levels_def Let_def)
qed

lemma normalize_levels_Nil: "normalize_levels [] = []"
  unfolding normalize_levels_def Let_def by simp

lemma normalize_levels_Nil_iff: "normalize_levels levels = [] \<longleftrightarrow> levels = []"
  unfolding normalize_levels_def Let_def by simp

lemma effective_levels_normalized:
  assumes "\<not> (edges = [] \<and> 1 < length items)"
  shows "effective_levels items edges opts = Inr (normalize_levels (raw_levels items edges))"
proof -
  define raw where "raw = raw_levels items edges"
  have "(if normalize_levels raw \<noteq> [] then normalize_levels raw else raw) = normalize_levels raw"
    by (cases "raw = []") (simp_all add: normalize_levels_Nil normalize_levels_Nil_iff)
  moreover have "\<not> (length edges = 0 \<and> 1 < length items)"
    using assms by simp
  ultimately show ?thesis
    unfolding effective_levels_def Let_def raw_def by (simp only: if_False)
qed

text \<open>
  C4, amended. For every input with distinct item ids whose surviving edges have no cycle
  (they all run upwards in some numbering \<open>rank\<close> of the ids), every surviving edge
  \<open>(u, v)\<close> has \<open>level(u) < level(v)\<close>; and whenever the grid fallback does not apply (there
  is an edge, or at most one item), every item of in-degree 0 is on level 0.
\<close>

theorem levels_follow_edges:
  fixes rank :: "string \<Rightarrow> nat"
  assumes dist: "distinct (map it_id items)"
    and acyclic: "\<And>e. e \<in> set edges \<Longrightarrow> surviving items e \<Longrightarrow> rank (from_id e) < rank (to_id e)"
  shows "(e \<in> set edges \<and> surviving items e \<longrightarrow>
            (\<exists>lu lv. level_of items edges opts (from_id e) = Some lu \<and>
                      level_of items edges opts (to_id e) = Some lv \<and> lu < lv)) \<and>
         (item \<in> set items \<and> (\<forall>e' \<in> set edges. surviving items e' \<longrightarrow> to_id e' \<noteq> it_id item) \<and>
            \<not> (edges = [] \<and> 1 < length items) \<longrightarrow>
            level_of items edges opts (it_id item) = Some 0)"
proof (intro conjI impI)
  assume e: "e \<in> set edges \<and> surviving items e"
  then have "edges \<noteq> []" by auto
  then have eff: "effective_levels items edges opts = Inr (normalize_levels (raw_levels items edges))"
    by (intro effective_levels_normalized) simp
  let ?g = "build_graph items edges"
  let ?out = "kahn_loop (fst ?g) (fst (seed_sources (snd ?g) items), snd ?g, snd (seed_sources (snd ?g) items))"
  note sorted_out = kahn_sorted_out [OF dist acyclic, of edges]
  have "resolve_unresolved items edges (fst ?out) = fst ?out"
    using sorted_out(1) by (intro resolve_unresolved_all_levelled) simp
  then have raw: "raw_levels items edges = fst ?out"
    by (simp add: raw_levels_def Let_def)
  obtain lu lv where "map_of (fst ?out) (from_id e) = Some lu" "map_of (fst ?out) (to_id e) = Some lv" "lu < lv"
    using sorted_out(2) e by blast
  then have "\<exists>nu nv. map_of (normalize_levels (fst ?out)) (from_id e) = Some nu \<and>
                      map_of (normalize_levels (fst ?out)) (to_id e) = Some nv \<and> nu < nv"
    by (rule normalize_levels_strict_mono)
  then show "\<exists>lu lv. level_of items edges opts (from_id e) = Some lu \<and>
                     level_of items edges opts (to_id e) = Some lv \<and> lu < lv"
    by (simp add: level_of_def eff raw)
next
  assume a: "item \<in> set items \<and> (\<forall>e' \<in> set edges. surviving items e' \<longrightarrow> to_id e' \<noteq> it_id item) \<and>
            \<not> (edges = [] \<and> 1 < length items)"
  then have eff: "effective_levels items edges opts = Inr (normalize_levels (raw_levels items edges))"
    by (intro effective_levels_normalized) simp
  have "it_id item \<in> item_ids items"
    using a by (simp add: item_ids_def)
  then have "map_of (raw_levels items edges) (it_id item) = Some 0"
    using a by (intro raw_levels_source) auto
  then have "map_of (normalize_levels (raw_levels items edges)) (it_id item) = Some 0"
    using raw_levels_nonneg [of items edges] by (intro normalize_levels_zero) auto
  then show "level_of items edges opts (it_id item) = Some 0"
    by (simp add: level_of_def eff)
qed

theorem levels_follow_edges_witness:
  "(\<exists>lu lv. level_of diamond_items diamond_edges default_options ''B'' = Some lu \<and>
             level_of diamond_items diamond_edges default_options ''D'' = Some lv \<and> lu < lv) \<and>
   level_of diamond_items diamond_edges default_options ''A'' = Some 0"
proof -
  have dist: "distinct (map it_id diamond_items)"
    by (simp add: diamond_items_def mk_item_def)
  have acyclic: "diamond_rank (from_id e) < diamond_rank (to_id e)"
    if "e \<in> set diamond_edges" "surviving diamond_items e" for e
    using that(1) by (auto simp: diamond_edges_def diamond_rank_def)
  show ?thesis
    using levels_follow_edges [where items = diamond_items and edges = diamond_edges
        and rank = diamond_rank and e = "\<lparr>from_id = ''B'', to_id = ''D''\<rparr>"
        and opts = default_options and item = "mk_item ''A'' 0 0 10 10", OF dist acyclic]
    by (simp add: diamond_items_def diamond_edges_def surviving_def item_ids_def mk_item_def)
qed

section \<open>Items of one level keep their distance\<close>

subsection \<open>Rounding moves a value by at most one half\<close>

lemma round_from_floor:
  fixes f :: int and v :: real
  assumes "of_int f \<le> v" and "v < of_int f + 1"
  shows "v - 1 / 2 \<le> of_int (if v - of_int f < 1 / 2 then f
                               else if 1 / 2 < v - of_int f then f + 1
                               else if even f then f else f + 1)"
    and "of_int (if v - of_int f < 1 / 2 then f
                 else if 1 / 2 < v - of_int f then f + 1
                 else if even f then f else f + 1) \<le> v + 1 / 2"
  using assms by auto

lemma py_round_lower: "v - 1 / 2 \<le> of_int (py_round v)"
proof -
  have "of_int \<lfloor>v\<rfloor> \<le> v" "v < of_int \<lfloor>v\<rfloor> + 1"
    by linarith+
  then show ?thesis
    unfolding py_round_def Let_def by (rule round_from_floor)
qed

lemma py_round_upper: "of_int (py_round v) \<le> v + 1 / 2"
proof -
  have "of_int \<lfloor>v\<rfloor> \<le> v" "v < of_int \<lfloor>v\<rfloor> + 1"
    by linarith+
  then show ?thesis
    unfolding py_round_def Let_def by (rule round_from_floor)
qed

lemma int_le_of_half:
  fixes y n :: int
  assumes "(of_int y :: real) - 1 / 2 \<le> of_int n"
  shows "y \<le> n"
proof (rule ccontr)
  assume "\<not> y \<le> n"
  then have "n + 1 \<le> y" by simp
  then have "(of_int (n + 1) :: real) \<le> of_int y"
    by (simp only: of_int_le_iff)
  then show False
    using assms by simp
qed

subsection \<open>One column (horizontal orientation)\<close>

lemma place_entry_result:
  "\<exists>y::int. place_entry x v en (L, prev) =
       (AList.update (it_id (e_item en)) \<lparr>pos_x = of_int (py_round x), pos_y = of_int y\<rparr> L,
        Some (of_int y + it_height (e_item en))) \<and>
     (\<forall>pb. prev = Some pb \<longrightarrow> pb + v - 1 / 2 \<le> of_int y)"
proof -
  define d where "d = target_center en - it_height (e_item en) / 2"
  define d' where "d' = (case prev of None \<Rightarrow> d | Some pb \<Rightarrow> if d < pb + v then pb + v else d)"
  have step: "place_entry x v en (L, prev) =
       (AList.update (it_id (e_item en)) \<lparr>pos_x = of_int (py_round x), pos_y = of_int (py_round d')\<rparr> L,
        Some (of_int (py_round d') + it_height (e_item en)))"
    by (cases prev) (simp_all add: place_entry_def Let_def d_def d'_def)
  have low: "pb + v - 1 / 2 \<le> of_int (py_round d')" if "prev = Some pb" for pb
  proof -
    have "pb + v \<le> d'"
      using that by (simp add: d'_def)
    then show ?thesis
      using py_round_lower [of d'] by linarith
  qed
  from step low show ?thesis
    by blast
qed

lemma fold_place_entry_other:
  "k \<notin> (\<lambda>en. it_id (e_item en)) ` set ens \<Longrightarrow>
     map_of (fst (fold (place_entry x v) ens st)) k = map_of (fst st) k"
proof (induction ens arbitrary: st)
  case Nil
  then show ?case by simp
next
  case (Cons e es)
  obtain L prev where st: "st = (L, prev)"
    by (cases st)
  obtain y :: int where step: "place_entry x v e (L, prev) =
       (AList.update (it_id (e_item e)) \<lparr>pos_x = of_int (py_round x), pos_y = of_int y\<rparr> L,
        Some (of_int y + it_height (e_item e)))"
    using place_entry_result [of x v e L prev] by blast
  have "map_of (fst (fold (place_entry x v) es (place_entry x v e st))) k
          = map_of (fst (place_entry x v e st)) k"
    using Cons.prems by (intro Cons.IH) simp
  then show ?case
    using Cons.prems by (simp add: st step update_conv')
qed

lemma fold_place_entry_tops:
  assumes "distinct (map (\<lambda>en. it_id (e_item en)) ens)"
    and "\<forall>en \<in> set ens. 0 \<le> it_height (e_item en)"
    and "0 \<le> v"
    and "en \<in> set ens"
  shows "\<exists>p n. map_of (fst (fold (place_entry x v) ens (L, prev))) (it_id (e_item en)) = Some p \<and>
               pos_y p = of_int n \<and> (\<forall>pb. prev = Some pb \<longrightarrow> pb + v - 1 / 2 \<le> pos_y p)"
  using assms(1,2,4)
proof (induction ens arbitrary: L prev)
  case Nil
  then show ?case by simp
next
  case (Cons e es)
  obtain y :: int where step: "place_entry x v e (L, prev) =
       (AList.update (it_id (e_item e)) \<lparr>pos_x = of_int (py_round x), pos_y = of_int y\<rparr> L,
        Some (of_int y + it_height (e_item e)))"
    and low: "\<And>pb. prev = Some pb \<Longrightarrow> pb + v - 1 / 2 \<le> of_int y"
    using place_entry_result [of x v e L prev] by blast
  let ?L = "AList.update (it_id (e_item e)) \<lparr>pos_x = of_int (py_round x), pos_y = of_int y\<rparr> L"
  let ?prev = "Some (of_int y + it_height (e_item e))"
  have unfold: "fold (place_entry x v) (e # es) (L, prev) = fold (place_entry x v) es (?L, ?prev)"
    by (simp add: step)
  show ?case
  proof (cases "en \<in> set es")
    case True
    have "\<exists>p n. map_of (fst (fold (place_entry x v) es (?L, ?prev))) (it_id (e_item en)) = Some p \<and>
               pos_y p = of_int n \<and> (\<forall>pb. ?prev = Some pb \<longrightarrow> pb + v - 1 / 2 \<le> pos_y p)"
      using Cons.prems True by (intro Cons.IH) simp_all
    then obtain p and n :: int where
      p: "map_of (fst (fold (place_entry x v) es (?L, ?prev))) (it_id (e_item en)) = Some p"
      and n: "pos_y p = of_int n"
      and above: "of_int y + it_height (e_item e) + v - 1 / 2 \<le> pos_y p"
      by auto
    have "0 \<le> it_height (e_item e)"
      using Cons.prems by simp
    then have "(of_int y :: real) - 1 / 2 \<le> of_int n"
      using above n assms(3) by linarith
    then have "y \<le> n"
      by (rule int_le_of_half)
    then have "(of_int y :: real) \<le> pos_y p"
      by (simp add: n)
    then have "\<forall>pb. prev = Some pb \<longrightarrow> pb + v - 1 / 2 \<le> pos_y p"
      using low by fastforce
    then show ?thesis
      using p n unfolding unfold by blast
  next
    case False
    then have en: "en = e"
      using Cons.prems by simp
    have "it_id (e_item e) \<notin> (\<lambda>en. it_id (e_item en)) ` set es"
      using Cons.prems by auto
    then have "map_of (fst (fold (place_entry x v) es (?L, ?prev))) (it_id (e_item e))
                 = map_of ?L (it_id (e_item e))"
      using fold_place_entry_other [of "it_id (e_item e)" es x v "(?L, ?prev)"] by simp
    then have "map_of (fst (fold (place_entry x v) es (?L, ?prev))) (it_id (e_item e))
                 = Some \<lparr>pos_x = of_int (py_round x), pos_y = of_int y\<rparr>"
      by (simp add: update_conv')
    then show ?thesis
      unfolding unfold en using low by fastforce
  qed
qed

lemma fold_place_entry_head:
  assumes "distinct (map (\<lambda>en. it_id (e_item en)) (e # es))"
    and "\<forall>en \<in> set (e # es). 0 \<le> it_height (e_item en)"
    and "0 \<le> v"
    and "b \<in> set es"
  shows "\<exists>pa pb. map_of (fst (fold (place_entry x v) (e # es) (L, prev))) (it_id (e_item e)) = Some pa \<and>
           map_of (fst (fold (place_entry x v) (e # es) (L, prev))) (it_id (e_item b)) = Some pb \<and>
           pos_y pa + it_height (e_item e) + v - 1 / 2 \<le> pos_y pb"
proof -
  obtain y :: int where step: "place_entry x v e (L, prev) =
       (AList.update (it_id (e_item e)) \<lparr>pos_x = of_int (py_round x), pos_y = of_int y\<rparr> L,
        Some (of_int y + it_height (e_item e)))"
    using place_entry_result [of x v e L prev] by blast
  let ?L = "AList.update (it_id (e_item e)) \<lparr>pos_x = of_int (py_round x), pos_y = of_int y\<rparr> L"
  let ?prev = "Some (of_int y + it_height (e_item e))"
  have unfold: "fold (place_entry x v) (e # es) (L, prev) = fold (place_entry x v) es (?L, ?prev)"
    by (simp add: step)
  have "it_id (e_item e) \<notin> (\<lambda>en. it_id (e_item en)) ` set es"
    using assms(1) by auto
  then have "map_of (fst (fold (place_entry x v) es (?L, ?prev))) (it_id (e_item e))
               = map_of ?L (it_id (e_item e))"
    using fold_place_entry_other [of "it_id (e_item e)" es x v "(?L, ?prev)"] by simp
  then have head: "map_of (fst (fold (place_entry x v) es (?L, ?prev))) (it_id (e_item e))
               = Some \<lparr>pos_x = of_int (py_round x), pos_y = of_int y\<rparr>"
    by (simp add: update_conv')
  have "\<exists>p n. map_of (fst (fold (place_entry x v) es (?L, ?prev))) (it_id (e_item b)) = Some p \<and>
               pos_y p = of_int n \<and> (\<forall>pb. ?prev = Some pb \<longrightarrow> pb + v - 1 / 2 \<le> pos_y p)"
    using assms by (intro fold_place_entry_tops) simp_all
  then obtain p where
    "map_of (fst (fold (place_entry x v) es (?L, ?prev))) (it_id (e_item b)) = Some p"
    "of_int y + it_height (e_item e) + v - 1 / 2 \<le> pos_y p"
    by auto
  then show ?thesis
    unfolding unfold using head by simp
qed

lemma fold_place_entry_apart:
  assumes "distinct (map (\<lambda>en. it_id (e_item en)) ens)"
    and "\<forall>en \<in> set ens. 0 \<le> it_height (e_item en)"
    and "0 \<le> v"
    and "a \<in> set ens" and "b \<in> set ens" and "it_id (e_item a) \<noteq> it_id (e_item b)"
  shows "(\<exists>pa pb. map_of (fst (fold (place_entry x v) ens (L, prev))) (it_id (e_item a)) = Some pa \<and>
            map_of (fst (fold (place_entry x v) ens (L, prev))) (it_id (e_item b)) = Some pb \<and>
            pos_y pa + it_height (e_item a) + v - 1 / 2 \<le> pos_y pb) \<or>
         (\<exists>pa pb. map_of (fst (fold (place_entry x v) ens (L, prev))) (it_id (e_item a)) = Some pa \<and>
            map_of (fst (fold (place_entry x v) ens (L, prev))) (it_id (e_item b)) = Some pb \<and>
            pos_y pb + it_height (e_item b) + v - 1 / 2 \<le> pos_y pa)"
  using assms(1,2,4,5)
proof (induction ens arbitrary: L prev)
  case Nil
  then show ?case by simp
next
  case (Cons e es)
  consider "a \<in> set es" "b \<in> set es" | "a = e" "b \<in> set es" | "b = e" "a \<in> set es"
    using Cons.prems assms(6) by auto
  then show ?case
  proof cases
    case 1
    obtain y :: int where step: "place_entry x v e (L, prev) =
       (AList.update (it_id (e_item e)) \<lparr>pos_x = of_int (py_round x), pos_y = of_int y\<rparr> L,
        Some (of_int y + it_height (e_item e)))"
      using place_entry_result [of x v e L prev] by blast
    show ?thesis
      using Cons.IH [of "AList.update (it_id (e_item e)) \<lparr>pos_x = of_int (py_round x), pos_y = of_int y\<rparr> L"
          "Some (of_int y + it_height (e_item e))"] Cons.prems 1
      by (simp add: step)
  next
    case 2
    show ?thesis
      using fold_place_entry_head [OF Cons.prems(1,2) assms(3) 2(2), of x L prev] 2(1) by blast
  next
    case 3
    show ?thesis
      using fold_place_entry_head [OF Cons.prems(1,2) assms(3) 3(2), of x L prev] 3(1) by blast
  qed
qed

subsection \<open>One row (vertical orientation)\<close>

lemma place_in_row_step:
  "place_in_row y hs item (L, cx, rh) =
     (AList.update (it_id item) \<lparr>pos_x = of_int (py_round cx), pos_y = of_int (py_round y)\<rparr> L,
      cx + it_width item + hs, max rh (it_height item))"
  by (simp add: place_in_row_def)

lemma fold_place_in_row_other:
  "k \<notin> it_id ` set row \<Longrightarrow> map_of (fst (fold (place_in_row y hs) row st)) k = map_of (fst st) k"
proof (induction row arbitrary: st)
  case Nil
  then show ?case by simp
next
  case (Cons e es)
  obtain L cx rh where st: "st = (L, cx, rh)"
    by (cases st)
  have "map_of (fst (fold (place_in_row y hs) es (place_in_row y hs e st))) k
          = map_of (fst (place_in_row y hs e st)) k"
    using Cons.prems by (intro Cons.IH) simp
  then show ?case
    using Cons.prems by (simp add: st place_in_row_step update_conv')
qed

lemma fold_place_in_row_lefts:
  assumes "distinct (map it_id row)"
    and "\<forall>it \<in> set row. 0 \<le> it_width it"
    and "0 \<le> hs"
    and "it \<in> set row"
  shows "\<exists>p. map_of (fst (fold (place_in_row y hs) row (L, cx, rh))) (it_id it) = Some p \<and>
             cx - 1 / 2 \<le> pos_x p"
  using assms(1,2,4)
proof (induction row arbitrary: L cx rh)
  case Nil
  then show ?case by simp
next
  case (Cons e es)
  let ?L = "AList.update (it_id e) \<lparr>pos_x = of_int (py_round cx), pos_y = of_int (py_round y)\<rparr> L"
  have unfold: "fold (place_in_row y hs) (e # es) (L, cx, rh)
                  = fold (place_in_row y hs) es (?L, cx + it_width e + hs, max rh (it_height e))"
    by (simp add: place_in_row_step)
  show ?case
  proof (cases "it \<in> set es")
    case True
    have "\<exists>p. map_of (fst (fold (place_in_row y hs) es (?L, cx + it_width e + hs, max rh (it_height e))))
                 (it_id it) = Some p \<and> cx + it_width e + hs - 1 / 2 \<le> pos_x p"
      using Cons.prems True by (intro Cons.IH) simp_all
    moreover have "0 \<le> it_width e"
      using Cons.prems by simp
    ultimately show ?thesis
      unfolding unfold using assms(3) by fastforce
  next
    case False
    then have it: "it = e"
      using Cons.prems by simp
    have "it_id e \<notin> it_id ` set es"
      using Cons.prems by auto
    then have "map_of (fst (fold (place_in_row y hs) es (?L, cx + it_width e + hs, max rh (it_height e))))
                 (it_id e) = map_of ?L (it_id e)"
      using fold_place_in_row_other [of "it_id e" es y hs "(?L, cx + it_width e + hs, max rh (it_height e))"]
      by simp
    then show ?thesis
      unfolding unfold it using py_round_lower [of cx] by (simp add: update_conv')
  qed
qed

lemma fold_place_in_row_head:
  assumes "distinct (map it_id (e # es))"
    and "\<forall>it \<in> set (e # es). 0 \<le> it_width it"
    and "0 \<le> hs"
    and "b \<in> set es"
  shows "\<exists>pa pb. map_of (fst (fold (place_in_row y hs) (e # es) (L, cx, rh))) (it_id e) = Some pa \<and>
           map_of (fst (fold (place_in_row y hs) (e # es) (L, cx, rh))) (it_id b) = Some pb \<and>
           pos_x pa + it_width e + hs - 1 \<le> pos_x pb"
proof -
  let ?L = "AList.update (it_id e) \<lparr>pos_x = of_int (py_round cx), pos_y = of_int (py_round y)\<rparr> L"
  have unfold: "fold (place_in_row y hs) (e # es) (L, cx, rh)
                  = fold (place_in_row y hs) es (?L, cx + it_width e + hs, max rh (it_height e))"
    by (simp add: place_in_row_step)
  have "it_id e \<notin> it_id ` set es"
    using assms(1) by auto
  then have "map_of (fst (fold (place_in_row y hs) es (?L, cx + it_width e + hs, max rh (it_height e))))
               (it_id e) = map_of ?L (it_id e)"
    using fold_place_in_row_other [of "it_id e" es y hs "(?L, cx + it_width e + hs, max rh (it_height e))"]
    by simp
  then have head: "map_of (fst (fold (place_in_row y hs) es (?L, cx + it_width e + hs, max rh (it_height e))))
               (it_id e) = Some \<lparr>pos_x = of_int (py_round cx), pos_y = of_int (py_round y)\<rparr>"
    by (simp add: update_conv')
  have "\<exists>p. map_of (fst (fold (place_in_row y hs) es (?L, cx + it_width e + hs, max rh (it_height e))))
               (it_id b) = Some p \<and> cx + it_width e + hs - 1 / 2 \<le> pos_x p"
    using assms by (intro fold_place_in_row_lefts) simp_all
  then obtain p where
    "map_of (fst (fold (place_in_row y hs) es (?L, cx + it_width e + hs, max rh (it_height e))))
       (it_id b) = Some p"
    "cx + it_width e + hs - 1 / 2 \<le> pos_x p"
    by auto
  moreover have "of_int (py_round cx) + it_width e + hs - 1 \<le> cx + it_width e + hs - 1 / 2"
    using py_round_upper [of cx] by linarith
  ultimately show ?thesis
    unfolding unfold using head by fastforce
qed

lemma fold_place_in_row_apart:
  assumes "distinct (map it_id row)"
    and "\<forall>it \<in> set row. 0 \<le> it_width it"
    and "0 \<le> hs"
    and "a \<in> set row" and "b \<in> set row" and "it_id a \<noteq> it_id b"
  shows "(\<exists>pa pb. map_of (fst (fold (place_in_row y hs) row (L, cx, rh))) (it_id a) = Some pa \<and>
            map_of (fst (fold (place_in_row y hs) row (L, cx, rh))) (it_id b) = Some pb \<and>
            pos_x pa + it_width a + hs - 1 \<le> pos_x pb) \<or>
         (\<exists>pa pb. map_of (fst (fold (place_in_row y hs) row (L, cx, rh))) (it_id a) = Some pa \<and>
            map_of (fst (fold (place_in_row y hs) row (L, cx, rh))) (it_id b) = Some pb \<and>
            pos_x pb + it_width b + hs - 1 \<le> pos_x pa)"
  using assms(1,2,4,5)
proof (induction row arbitrary: L cx rh)
  case Nil
  then show ?case by simp
next
  case (Cons e es)
  consider "a \<in> set es" "b \<in> set es" | "a = e" "b \<in> set es" | "b = e" "a \<in> set es"
    using Cons.prems assms(6) by auto
  then show ?case
  proof cases
    case 1
    show ?thesis
      using Cons.IH [of "AList.update (it_id e)
            \<lparr>pos_x = of_int (py_round cx), pos_y = of_int (py_round y)\<rparr> L"
          "cx + it_width e + hs" "max rh (it_height e)"] Cons.prems 1
      by (simp add: place_in_row_step)
  next
    case 2
    show ?thesis
      using fold_place_in_row_head [OF Cons.prems(1,2) assms(3) 2(2), of y L cx rh] 2(1) by blast
  next
    case 3
    show ?thesis
      using fold_place_in_row_head [OF Cons.prems(1,2) assms(3) 3(2), of y L cx rh] 3(1) by blast
  qed
qed

subsection \<open>A level is placed as one column or one row\<close>

lemma e_item_make_entry: "e_item (make_entry edges item_map layout item) = item"
  by (simp add: make_entry_def Let_def)

lemma place_column_other:
  assumes "k \<notin> it_id ` set (dict_get_or grouped l [])"
  shows "map_of (fst (place_column edges item_map grouped opts l st)) k = map_of (fst st) k"
proof (cases "dict_get_or grouped l []")
  case Nil
  then show ?thesis by (simp add: place_column_def)
next
  case (Cons c cs)
  let ?ens = "sort_key (\<lambda>e. (target_center e, fallback_center e, it_id (e_item e)))
                (map (make_entry edges item_map (fst st)) (c # cs))"
  have "(\<lambda>en. it_id (e_item en)) ` set ?ens = it_id ` set (c # cs)"
    by (simp add: image_image e_item_make_entry del: list.map set_simps)
  then have "k \<notin> (\<lambda>en. it_id (e_item en)) ` set ?ens"
    using assms Cons by simp
  then have "map_of (fst (fold (place_entry (snd st) (vertical_spacing opts)) ?ens (fst st, None))) k
               = map_of (fst st) k"
    using fold_place_entry_other [of k ?ens "snd st" "vertical_spacing opts" "(fst st, None)"] by simp
  then show ?thesis
    by (simp add: place_column_def Cons Let_def)
qed

lemma place_column_apart:
  assumes "distinct (map it_id (dict_get_or grouped l []))"
    and "\<forall>it \<in> set (dict_get_or grouped l []). 0 \<le> it_height it"
    and "0 \<le> vertical_spacing opts"
    and "a \<in> set (dict_get_or grouped l [])" and "b \<in> set (dict_get_or grouped l [])"
    and "it_id a \<noteq> it_id b"
  shows "(\<exists>pa pb. map_of (fst (place_column edges item_map grouped opts l st)) (it_id a) = Some pa \<and>
            map_of (fst (place_column edges item_map grouped opts l st)) (it_id b) = Some pb \<and>
            pos_y pa + it_height a + vertical_spacing opts - 1 / 2 \<le> pos_y pb) \<or>
         (\<exists>pa pb. map_of (fst (place_column edges item_map grouped opts l st)) (it_id a) = Some pa \<and>
            map_of (fst (place_column edges item_map grouped opts l st)) (it_id b) = Some pb \<and>
            pos_y pb + it_height b + vertical_spacing opts - 1 / 2 \<le> pos_y pa)"
proof (cases "dict_get_or grouped l []")
  case Nil
  then show ?thesis using assms(4) by simp
next
  case (Cons c cs)
  let ?mk = "make_entry edges item_map (fst st)"
  let ?ens = "sort_key (\<lambda>e. (target_center e, fallback_center e, it_id (e_item e))) (map ?mk (c # cs))"
  have ids: "map (\<lambda>en. it_id (e_item en)) (map ?mk xs) = map it_id xs" for xs
    by (induction xs) (simp_all add: e_item_make_entry)
  have "distinct (map it_id (c # cs))"
    using assms(1) Cons by simp
  then have "distinct (map (\<lambda>en. it_id (e_item en)) (map ?mk (c # cs)))"
    by (simp only: ids)
  then have dist: "distinct (map (\<lambda>en. it_id (e_item en)) ?ens)"
    by (simp only: distinct_ids_sort_key)
  have set_ens: "set ?ens = ?mk ` set (c # cs)"
    by (simp only: set_sort set_map)
  have heights: "\<forall>en \<in> set ?ens. 0 \<le> it_height (e_item en)"
    unfolding set_ens using assms(2) Cons by (auto simp: e_item_make_entry)
  have a: "?mk a \<in> set ?ens" and b: "?mk b \<in> set ?ens"
    unfolding set_ens using assms(4,5) Cons by auto
  have placed: "fst (place_column edges item_map grouped opts l st)
                  = fst (fold (place_entry (snd st) (vertical_spacing opts)) ?ens (fst st, None))"
    by (simp add: place_column_def Cons Let_def)
  have ne: "it_id (e_item (?mk a)) \<noteq> it_id (e_item (?mk b))"
    using assms(6) by (simp add: e_item_make_entry)
  show ?thesis
    unfolding placed
    using fold_place_entry_apart [OF dist heights assms(3) a b ne, of "snd st" "fst st" None]
    by (simp only: e_item_make_entry)
qed

lemma place_row_other:
  assumes "k \<notin> it_id ` set (dict_get_or grouped l [])"
  shows "map_of (fst (place_row grouped opts rc l st)) k = map_of (fst st) k"
proof -
  let ?row = "sort_key (\<lambda>it. (it_x it, it_id it)) (dict_get_or grouped l [])"
  have "k \<notin> it_id ` set ?row"
    using assms by simp
  then have "map_of (fst (fold (place_in_row y hs) ?row s)) k = map_of (fst s) k" for y hs s
    by (rule fold_place_in_row_other)
  then show ?thesis
    by (simp add: place_row_def Let_def)
qed

lemma place_row_apart:
  assumes "distinct (map it_id (dict_get_or grouped l []))"
    and "\<forall>it \<in> set (dict_get_or grouped l []). 0 \<le> it_width it"
    and "0 \<le> horizontal_spacing opts"
    and "a \<in> set (dict_get_or grouped l [])" and "b \<in> set (dict_get_or grouped l [])"
    and "it_id a \<noteq> it_id b"
  shows "(\<exists>pa pb. map_of (fst (place_row grouped opts rc l st)) (it_id a) = Some pa \<and>
            map_of (fst (place_row grouped opts rc l st)) (it_id b) = Some pb \<and>
            pos_x pa + it_width a + horizontal_spacing opts - 1 \<le> pos_x pb) \<or>
         (\<exists>pa pb. map_of (fst (place_row grouped opts rc l st)) (it_id a) = Some pa \<and>
            map_of (fst (place_row grouped opts rc l st)) (it_id b) = Some pb \<and>
            pos_x pb + it_width b + horizontal_spacing opts - 1 \<le> pos_x pa)"
proof -
  let ?row = "sort_key (\<lambda>it. (it_x it, it_id it)) (dict_get_or grouped l [])"
  have dist: "distinct (map it_id ?row)"
    using assms(1) by (simp only: distinct_ids_sort_key)
  have widths: "\<forall>it \<in> set ?row. 0 \<le> it_width it"
    using assms(2) by simp
  have a: "a \<in> set ?row" and b: "b \<in> set ?row"
    using assms(4,5) by simp_all
  have ne: "?row \<noteq> []"
    using a by (metis empty_iff empty_set)
  define cx where "cx = rc - (sum_list (map it_width ?row)
      + (real (length ?row) - 1) * horizontal_spacing opts) / 2"
  have placed: "fst (place_row grouped opts rc l st)
                  = fst (fold (place_in_row (snd st) (horizontal_spacing opts)) ?row (fst st, cx, 0))"
    using ne by (simp add: place_row_def Let_def cx_def)
  show ?thesis
    unfolding placed
    by (rule fold_place_in_row_apart [OF dist widths assms(3) a b assms(6)])
qed

subsection \<open>The groups of step 6\<close>

lemma dict_get_or_no_key: "\<not> has_key d k \<Longrightarrow> dict_get_or d k dflt = dflt"
  by (simp add: has_key_def dict_get_or_def)

lemma has_key_Nil: "\<not> has_key [] k"
  by (simp add: has_key_def)

lemma group_item_get:
  "dict_get_or (group_item item_map p g) l [] =
     dict_get_or g l [] @
     map (\<lambda>p. the (map_of item_map (fst p)))
       (filter (\<lambda>p. snd p = l \<and> map_of item_map (fst p) \<noteq> None) [p])"
proof (cases "map_of item_map (fst p)")
  case None
  then show ?thesis
    by (cases "has_key g (snd p)")
      (auto simp: group_item_def Let_def dict_get_or_update dict_get_or_no_key)
next
  case (Some it)
  then show ?thesis
    by (cases "has_key g (snd p)")
      (auto simp: group_item_def Let_def dict_get_or_update dict_get_or_no_key)
qed

lemma has_key_group_item:
  "has_key (group_item item_map p g) l \<longleftrightarrow> l = snd p \<or> has_key g l"
  by (cases "map_of item_map (fst p)"; cases "has_key g (snd p)")
    (auto simp: group_item_def Let_def has_key_update)

lemma fold_group_item_get:
  "dict_get_or (fold (group_item item_map) eff g) l [] =
     dict_get_or g l [] @
     map (\<lambda>p. the (map_of item_map (fst p)))
       (filter (\<lambda>p. snd p = l \<and> map_of item_map (fst p) \<noteq> None) eff)"
proof (induction eff arbitrary: g)
  case Nil
  then show ?case by simp
next
  case (Cons p eff)
  have "dict_get_or (fold (group_item item_map) (p # eff) g) l []
          = dict_get_or (group_item item_map p g) l [] @
            map (\<lambda>p. the (map_of item_map (fst p)))
              (filter (\<lambda>p. snd p = l \<and> map_of item_map (fst p) \<noteq> None) eff)"
    using Cons.IH [of "group_item item_map p g"] by simp
  then show ?case
    by (simp only: group_item_get) simp
qed

lemma has_key_fold_group_item:
  "has_key (fold (group_item item_map) eff g) l \<longleftrightarrow> l \<in> snd ` set eff \<or> has_key g l"
  by (induction eff arbitrary: g) (auto simp: has_key_group_item)

lemma group_by_level_get:
  "dict_get_or (group_by_level item_map eff) l [] =
     map (\<lambda>p. the (map_of item_map (fst p)))
       (filter (\<lambda>p. snd p = l \<and> map_of item_map (fst p) \<noteq> None) eff)"
  by (simp only: group_by_level_def fold_group_item_get) (simp add: dict_get_or_def)

lemma group_by_level_keys:
  "l \<in> set (sort (map fst (group_by_level item_map eff))) \<longleftrightarrow> l \<in> snd ` set eff"
proof -
  have "l \<in> set (sort (map fst (group_by_level item_map eff)))
          \<longleftrightarrow> has_key (group_by_level item_map eff) l"
    by (simp add: has_key_def map_of_eq_None_iff)
  also have "\<dots> \<longleftrightarrow> l \<in> snd ` set eff"
    by (simp add: group_by_level_def has_key_fold_group_item has_key_Nil)
  finally show ?thesis .
qed

subsection \<open>The item map\<close>

lemma item_map_lookup:
  assumes "map_of (dict_of (map (\<lambda>it. (it_id it, it)) items)) k = Some it"
  shows "it \<in> set items \<and> it_id it = k"
proof -
  have "(k, it) \<in> set (rev (map (\<lambda>it. (it_id it, it)) items))"
    using assms unfolding map_of_dict_of by (rule map_of_SomeD)
  then show ?thesis
    by auto
qed

lemma item_map_distinct:
  assumes "distinct (map it_id items)" and "it \<in> set items"
  shows "map_of (dict_of (map (\<lambda>it. (it_id it, it)) items)) (it_id it) = Some it"
proof -
  have "map fst (map (\<lambda>it. (it_id it, it)) items) = map it_id items"
    by simp
  then have "distinct (map fst (rev (map (\<lambda>it. (it_id it, it)) items)))"
    using assms(1) by (simp only: rev_map [symmetric] distinct_rev)
  moreover have "(it_id it, it) \<in> set (rev (map (\<lambda>it. (it_id it, it)) items))"
    using assms(2) by simp
  ultimately show ?thesis
    unfolding map_of_dict_of by (rule map_of_is_SomeI)
qed

lemma group_member:
  assumes "it \<in> set (dict_get_or (group_by_level (dict_of (map (\<lambda>it. (it_id it, it)) items)) eff) l [])"
  shows "it \<in> set items \<and> (it_id it, l) \<in> set eff"
proof -
  let ?im = "dict_of (map (\<lambda>it. (it_id it, it)) items)"
  obtain p where p: "p \<in> set eff" "snd p = l" "map_of ?im (fst p) \<noteq> None"
    "it = the (map_of ?im (fst p))"
    using assms unfolding group_by_level_get by auto
  then have "map_of ?im (fst p) = Some it"
    by auto
  then have "it \<in> set items \<and> it_id it = fst p"
    by (rule item_map_lookup)
  then show ?thesis
    using p(1,2) by auto
qed

lemma group_contains:
  assumes "distinct (map it_id items)" and "it \<in> set items" and "(it_id it, l) \<in> set eff"
  shows "it \<in> set (dict_get_or (group_by_level (dict_of (map (\<lambda>it. (it_id it, it)) items)) eff) l [])"
proof -
  let ?im = "dict_of (map (\<lambda>it. (it_id it, it)) items)"
  have "map_of ?im (it_id it) = Some it"
    using assms(1,2) by (rule item_map_distinct)
  then have "it = the (map_of ?im (fst (it_id it, l)))" "map_of ?im (fst (it_id it, l)) \<noteq> None"
    by simp_all
  then show ?thesis
    unfolding group_by_level_get using assms(3) by (auto simp: image_iff)
qed

lemma group_distinct:
  assumes "distinct (map fst eff)"
  shows "distinct (map it_id
           (dict_get_or (group_by_level (dict_of (map (\<lambda>it. (it_id it, it)) items)) eff) l []))"
proof -
  let ?im = "dict_of (map (\<lambda>it. (it_id it, it)) items)"
  let ?P = "\<lambda>p. snd p = l \<and> map_of ?im (fst p) \<noteq> None"
  have ids: "map it_id (map (\<lambda>p. the (map_of ?im (fst p))) (filter ?P eff)) = map fst (filter ?P eff)"
  proof -
    have "it_id (the (map_of ?im (fst p))) = fst p" if member: "?P p" for p
    proof -
      obtain it where "map_of ?im (fst p) = Some it"
        using member by auto
      then show ?thesis
        using item_map_lookup [of items "fst p" it] by simp
    qed
    then show ?thesis
      by (simp add: comp_def)
  qed
  have "distinct (map fst (filter ?P eff))"
    using assms by (rule distinct_map_filter)
  then show ?thesis
    unfolding group_by_level_get ids .
qed

subsection \<open>Every id has one level\<close>

lemma fold_update_distinct:
  "distinct (map fst d) \<Longrightarrow>
     distinct (map fst (fold (\<lambda>item l. AList.update (it_id item) (0::int) l) xs d))"
  by (induction xs arbitrary: d) (simp_all add: distinct_update)

lemma seed_sources_keys: "distinct (map fst (fst (seed_sources indegree items)))"
  by (simp add: seed_sources_def fold_seed_source fold_update_distinct)

lemma relax_keys:
  "distinct (map fst (fst st)) \<Longrightarrow> distinct (map fst (fst (relax cl t st)))"
  by (cases st) (simp add: relax_def Let_def distinct_update split: option.splits)

lemma fold_relax_keys:
  "distinct (map fst (fst st)) \<Longrightarrow> distinct (map fst (fst (fold (relax cl) ts st)))"
  by (induction ts arbitrary: st) (simp_all add: relax_keys)

lemma kahn_loop_keys:
  "distinct (map fst (fst st)) \<Longrightarrow> distinct (map fst (fst (kahn_loop adjacency st)))"
proof (induction adjacency st rule: kahn_loop.induct)
  case (1 adjacency levels indegree)
  then show ?case by simp
next
  case (2 adjacency levels indegree current queue)
  have "distinct (map fst (fst (fold (relax (dict_get_or levels current 0))
          (dict_get_or adjacency current []) (levels, indegree, queue))))"
    using "2.prems" by (intro fold_relax_keys) simp
  then show ?case
    using "2.IH" by simp
qed

lemma resolve_item_keys:
  "distinct (map fst levels) \<Longrightarrow> distinct (map fst (resolve_item edges item levels))"
  by (simp add: resolve_item_def distinct_update split: list.splits)

lemma fold_resolve_item_keys:
  "distinct (map fst levels) \<Longrightarrow> distinct (map fst (fold (resolve_item edges) xs levels))"
  by (induction xs arbitrary: levels) (simp_all add: resolve_item_keys)

lemma raw_levels_keys: "distinct (map fst (raw_levels items edges))"
  unfolding raw_levels_def Let_def resolve_unresolved_def
  by (intro fold_resolve_item_keys kahn_loop_keys) (simp add: seed_sources_keys)

lemma normalize_levels_keys: "map fst (normalize_levels levels) = map fst levels"
  by (simp add: normalize_levels_def Let_def comp_def)

lemma fold_grid_assign_keys:
  "distinct (map fst levels) \<Longrightarrow>
     distinct (map fst (fold (grid_assign orient columns) ps levels))"
  by (induction ps arbitrary: levels) (simp_all add: grid_assign_def distinct_update)

lemma effective_levels_keys:
  assumes "effective_levels items edges opts = Inr eff"
  shows "distinct (map fst eff)"
proof -
  define raw where "raw = raw_levels items edges"
  define effective where
    "effective = (if normalize_levels raw \<noteq> [] then normalize_levels raw else raw)"
  have "distinct (map fst raw)"
    unfolding raw_def by (rule raw_levels_keys)
  then have eff: "distinct (map fst effective)"
    by (simp add: effective_def normalize_levels_keys)
  have "effective_levels items edges opts =
          (if length edges = 0 \<and> length items > 1 then
             (if grid_columns opts = 0 then Inl ZeroDivisionError
              else Inr (fold (grid_assign (orientation opts) (grid_columns opts))
                          (enumerate 0 (sort_key (\<lambda>it. (it_y it, it_x it)) items)) effective))
           else Inr effective)"
    unfolding effective_levels_def Let_def effective_def raw_def by (rule refl)
  then show ?thesis
    using assms eff fold_grid_assign_keys [OF eff]
    by (auto split: if_splits)
qed

lemma distinct_keys_one_value:
  assumes "distinct (map fst eff)" and "(k, v) \<in> set eff" and "(k, v') \<in> set eff"
  shows "v = v'"
proof -
  from assms(1,2) have "map_of eff k = Some v"
    by (rule map_of_is_SomeI)
  moreover from assms(1,3) have "map_of eff k = Some v'"
    by (rule map_of_is_SomeI)
  ultimately show ?thesis by simp
qed

subsection \<open>The levels are placed one after another\<close>

lemma fold_levels_other:
  assumes "\<And>l st. l \<in> set ls \<Longrightarrow> map_of (fst (step l st)) k = map_of (fst st) k"
  shows "map_of (fst (fold step ls st)) k = map_of (fst st) k"
  using assms
proof (induction ls arbitrary: st)
  case Nil
  then show ?case by simp
next
  case (Cons x xs)
  have "map_of (fst (fold step xs (step x st))) k = map_of (fst (step x st)) k"
    using Cons.prems by (intro Cons.IH) simp
  then show ?case
    using Cons.prems [of x st] by simp
qed

lemma fold_levels_apart:
  assumes here: "\<And>st. Q (map_of (fst (step l st)) ka) (map_of (fst (step l st)) kb)"
    and other: "\<And>l' st. l' \<noteq> l \<Longrightarrow> map_of (fst (step l' st)) ka = map_of (fst st) ka \<and>
                                     map_of (fst (step l' st)) kb = map_of (fst st) kb"
    and l: "l \<in> set ls"
  shows "Q (map_of (fst (fold step ls st)) ka) (map_of (fst (fold step ls st)) kb)"
  using l
proof (induction ls arbitrary: st)
  case Nil
  then show ?case by simp
next
  case (Cons x xs)
  show ?case
  proof (cases "l \<in> set xs")
    case True
    then show ?thesis
      using Cons.IH [of "step x st"] by simp
  next
    case False
    then have x: "x = l"
      using Cons.prems by simp
    have keep: "map_of (fst (step l' s)) ka = map_of (fst s) ka \<and>
                map_of (fst (step l' s)) kb = map_of (fst s) kb" if "l' \<in> set xs" for l' s
    proof -
      have "l' \<noteq> l"
        using that False by auto
      then show ?thesis
        by (rule other)
    qed
    have "map_of (fst (fold step xs (step l st))) ka = map_of (fst (step l st)) ka"
      by (rule fold_levels_other) (simp add: keep)
    moreover have "map_of (fst (fold step xs (step l st))) kb = map_of (fst (step l st)) kb"
      by (rule fold_levels_other) (simp add: keep)
    ultimately show ?thesis
      using here [of st] by (simp add: x)
  qed
qed

lemma fold_place_unpositioned_keep:
  "has_key L k \<Longrightarrow> map_of (fold place_unpositioned items L) k = map_of L k"
proof (induction items arbitrary: L)
  case Nil
  then show ?case by simp
next
  case (Cons item items)
  have "has_key (place_unpositioned item L) k"
    using Cons.prems by (simp add: place_unpositioned_def has_key_update)
  then have "map_of (fold place_unpositioned items (place_unpositioned item L)) k
               = map_of (place_unpositioned item L) k"
    by (rule Cons.IH)
  moreover have "map_of (place_unpositioned item L) k = map_of L k"
    using Cons.prems by (auto simp: place_unpositioned_def update_conv')
  ultimately show ?case
    by simp
qed

subsection \<open>The layout of a non-empty item list\<close>

lemma position_items_shape:
  "\<exists>sx sy rc. position_items item rest edges opts eff =
     fold place_unpositioned (item # rest)
       (if orientation opts = ''horizontal''
        then fst (fold (place_column edges (dict_of (map (\<lambda>it. (it_id it, it)) (item # rest)))
                          (group_by_level (dict_of (map (\<lambda>it. (it_id it, it)) (item # rest))) eff) opts)
                    (sort (map fst (group_by_level (dict_of (map (\<lambda>it. (it_id it, it)) (item # rest))) eff)))
                    ([], sx))
        else fst (fold (place_row (group_by_level (dict_of (map (\<lambda>it. (it_id it, it)) (item # rest))) eff)
                          opts rc)
                    (sort (map fst (group_by_level (dict_of (map (\<lambda>it. (it_id it, it)) (item # rest))) eff)))
                    ([], sy)))"
  unfolding position_items_def Let_def by (intro exI) (rule refl)

lemma position_items_apart:
  assumes dist: "distinct (map it_id (item # rest))"
    and keys: "distinct (map fst eff)"
    and sizes: "\<forall>it \<in> set (item # rest). 0 \<le> it_width it \<and> 0 \<le> it_height it"
    and hs: "0 \<le> horizontal_spacing opts"
    and vs: "0 \<le> vertical_spacing opts"
    and a: "a \<in> set (item # rest)" and la: "map_of eff (it_id a) = Some l"
    and b: "b \<in> set (item # rest)" and lb: "map_of eff (it_id b) = Some l"
    and ne: "it_id a \<noteq> it_id b"
  shows "\<exists>pa pb. map_of (position_items item rest edges opts eff) (it_id a) = Some pa \<and>
           map_of (position_items item rest edges opts eff) (it_id b) = Some pb \<and>
           (if orientation opts = ''horizontal''
            then pos_y pa + it_height a + vertical_spacing opts - 1 \<le> pos_y pb \<or>
                 pos_y pb + it_height b + vertical_spacing opts - 1 \<le> pos_y pa
            else pos_x pa + it_width a + horizontal_spacing opts - 1 \<le> pos_x pb \<or>
                 pos_x pb + it_width b + horizontal_spacing opts - 1 \<le> pos_x pa)"
proof -
  define items where "items = item # rest"
  define im where "im = dict_of (map (\<lambda>it. (it_id it, it)) items)"
  define grouped where "grouped = group_by_level im eff"
  define ls where "ls = sort (map fst grouped)"
  have a_l: "(it_id a, l) \<in> set eff"
    using la by (rule map_of_SomeD)
  have b_l: "(it_id b, l) \<in> set eff"
    using lb by (rule map_of_SomeD)
  have a_in: "a \<in> set (dict_get_or grouped l [])"
    unfolding grouped_def im_def items_def using dist a a_l by (rule group_contains)
  have b_in: "b \<in> set (dict_get_or grouped l [])"
    unfolding grouped_def im_def items_def using dist b b_l by (rule group_contains)
  have l_in: "l \<in> set ls"
    unfolding ls_def grouped_def group_by_level_keys using a_l by force
  have col_dist: "distinct (map it_id (dict_get_or grouped l []))"
    unfolding grouped_def im_def using keys by (rule group_distinct)
  have member: "it \<in> set items \<and> (it_id it, l') \<in> set eff"
    if "it \<in> set (dict_get_or grouped l' [])" for it l'
    using that unfolding grouped_def im_def by (rule group_member)
  have heights: "\<forall>it \<in> set (dict_get_or grouped l []). 0 \<le> it_height it"
    using member sizes unfolding items_def by blast
  have widths: "\<forall>it \<in> set (dict_get_or grouped l []). 0 \<le> it_width it"
    using member sizes unfolding items_def by blast
  have elsewhere: "k \<notin> it_id ` set (dict_get_or grouped l' [])"
    if "l' \<noteq> l" and k: "(k, l) \<in> set eff" for l' k
  proof
    assume "k \<in> it_id ` set (dict_get_or grouped l' [])"
    then obtain it where "it \<in> set (dict_get_or grouped l' [])" "it_id it = k"
      by auto
    then have "(k, l') \<in> set eff"
      using member by blast
    with keys k have "l = l'"
      by (rule distinct_keys_one_value)
    then show False
      using that(1) by simp
  qed
  from position_items_shape [of item rest edges opts eff]
  obtain sx sy rc where shape: "position_items item rest edges opts eff =
     fold place_unpositioned items
       (if orientation opts = ''horizontal''
        then fst (fold (place_column edges im grouped opts) ls ([], sx))
        else fst (fold (place_row grouped opts rc) ls ([], sy)))"
    unfolding ls_def grouped_def im_def items_def by blast
  show ?thesis
  proof (cases "orientation opts = ''horizontal''")
    case True
    let ?Q = "\<lambda>ma mb.
      (\<exists>pa pb. ma = Some pa \<and> mb = Some pb \<and>
         pos_y pa + it_height a + vertical_spacing opts - 1 / 2 \<le> pos_y pb) \<or>
      (\<exists>pa pb. ma = Some pa \<and> mb = Some pb \<and>
         pos_y pb + it_height b + vertical_spacing opts - 1 / 2 \<le> pos_y pa)"
    define L1 where "L1 = fst (fold (place_column edges im grouped opts) ls ([], sx))"
    have here: "?Q (map_of (fst (place_column edges im grouped opts l st)) (it_id a))
                   (map_of (fst (place_column edges im grouped opts l st)) (it_id b))" for st
      by (rule place_column_apart [OF col_dist heights vs a_in b_in ne])
    have other: "map_of (fst (place_column edges im grouped opts l' st)) (it_id a)
                   = map_of (fst st) (it_id a) \<and>
                 map_of (fst (place_column edges im grouped opts l' st)) (it_id b)
                   = map_of (fst st) (it_id b)" if "l' \<noteq> l" for l' st
      using elsewhere [OF that a_l] elsewhere [OF that b_l] by (simp add: place_column_other)
    have "?Q (map_of L1 (it_id a)) (map_of L1 (it_id b))"
      unfolding L1_def
      by (rule fold_levels_apart [where Q = ?Q and step = "place_column edges im grouped opts"
            and l = l and ka = "it_id a" and kb = "it_id b", OF here other l_in])
    then obtain pa pb where pa: "map_of L1 (it_id a) = Some pa" and pb: "map_of L1 (it_id b) = Some pb"
      and gap: "pos_y pa + it_height a + vertical_spacing opts - 1 / 2 \<le> pos_y pb \<or>
                pos_y pb + it_height b + vertical_spacing opts - 1 / 2 \<le> pos_y pa"
      by blast
    have final: "map_of (position_items item rest edges opts eff) k = map_of L1 k"
      if "has_key L1 k" for k
      using that by (simp add: shape True L1_def fold_place_unpositioned_keep)
    have "map_of (position_items item rest edges opts eff) (it_id a) = Some pa"
      using pa by (simp add: final has_key_def)
    moreover have "map_of (position_items item rest edges opts eff) (it_id b) = Some pb"
      using pb by (simp add: final has_key_def)
    moreover have "pos_y pa + it_height a + vertical_spacing opts - 1 \<le> pos_y pb \<or>
                   pos_y pb + it_height b + vertical_spacing opts - 1 \<le> pos_y pa"
      using gap by linarith
    ultimately show ?thesis
      using True by auto
  next
    case False
    let ?Q = "\<lambda>ma mb.
      (\<exists>pa pb. ma = Some pa \<and> mb = Some pb \<and>
         pos_x pa + it_width a + horizontal_spacing opts - 1 \<le> pos_x pb) \<or>
      (\<exists>pa pb. ma = Some pa \<and> mb = Some pb \<and>
         pos_x pb + it_width b + horizontal_spacing opts - 1 \<le> pos_x pa)"
    define L1 where "L1 = fst (fold (place_row grouped opts rc) ls ([], sy))"
    have here: "?Q (map_of (fst (place_row grouped opts rc l st)) (it_id a))
                   (map_of (fst (place_row grouped opts rc l st)) (it_id b))" for st
      by (rule place_row_apart [OF col_dist widths hs a_in b_in ne])
    have other: "map_of (fst (place_row grouped opts rc l' st)) (it_id a)
                   = map_of (fst st) (it_id a) \<and>
                 map_of (fst (place_row grouped opts rc l' st)) (it_id b)
                   = map_of (fst st) (it_id b)" if "l' \<noteq> l" for l' st
      using elsewhere [OF that a_l] elsewhere [OF that b_l] by (simp add: place_row_other)
    have "?Q (map_of L1 (it_id a)) (map_of L1 (it_id b))"
      unfolding L1_def
      by (rule fold_levels_apart [where Q = ?Q and step = "place_row grouped opts rc"
            and l = l and ka = "it_id a" and kb = "it_id b", OF here other l_in])
    then obtain pa pb where pa: "map_of L1 (it_id a) = Some pa" and pb: "map_of L1 (it_id b) = Some pb"
      and gap: "pos_x pa + it_width a + horizontal_spacing opts - 1 \<le> pos_x pb \<or>
                pos_x pb + it_width b + horizontal_spacing opts - 1 \<le> pos_x pa"
      by blast
    have final: "map_of (position_items item rest edges opts eff) k = map_of L1 k"
      if "has_key L1 k" for k
      using that by (simp add: shape False L1_def fold_place_unpositioned_keep)
    have "map_of (position_items item rest edges opts eff) (it_id a) = Some pa"
      using pa by (simp add: final has_key_def)
    moreover have "map_of (position_items item rest edges opts eff) (it_id b) = Some pb"
      using pb by (simp add: final has_key_def)
    ultimately show ?thesis
      using False gap by auto
  qed
qed

text \<open>
  C6. Let the item ids be distinct, the sizes and the two spacings not negative, and let the
  placer return a layout. Two different items \<open>a\<close> and \<open>b\<close> of one level are then apart on
  the cross axis: in the horizontal orientation one of them begins, in y, at least
  \<open>vertical_spacing - 1\<close> below the bottom of the other; in the vertical orientation one of
  them begins, in x, at least \<open>horizontal_spacing - 1\<close> right of the right edge of the other.
\<close>

theorem same_level_items_keep_apart:
  assumes "distinct (map it_id items)"
    and "list_all (\<lambda>it. 0 \<le> it_width it \<and> 0 \<le> it_height it) items"
    and "0 \<le> horizontal_spacing opts" and "0 \<le> vertical_spacing opts"
    and "opts = (case options of None \<Rightarrow> default_options | Some given \<Rightarrow> given)"
    and "compute_organized_layout items edges options = Inr layout"
    and "a \<in> set items" and "b \<in> set items" and "it_id a \<noteq> it_id b"
    and "level_of items edges opts (it_id a) = Some l"
    and "level_of items edges opts (it_id b) = Some l"
  shows "\<exists>pa pb. map_of layout (it_id a) = Some pa \<and> map_of layout (it_id b) = Some pb \<and>
           (if orientation opts = ''horizontal''
            then pos_y pa + it_height a + vertical_spacing opts - 1 \<le> pos_y pb \<or>
                 pos_y pb + it_height b + vertical_spacing opts - 1 \<le> pos_y pa
            else pos_x pa + it_width a + horizontal_spacing opts - 1 \<le> pos_x pb \<or>
                 pos_x pb + it_width b + horizontal_spacing opts - 1 \<le> pos_x pa)"
proof -
  obtain item rest where items: "items = item # rest"
    using assms(7) by (cases items) auto
  have run: "layout_with items edges opts = Inr layout"
    using assms(5,6) by (simp add: compute_organized_layout_def)
  then obtain eff where eff: "effective_levels items edges opts = Inr eff"
    and layout: "layout = position_items item rest edges opts eff"
    by (auto simp: layout_with_def items split: sum.splits)
  have keys: "distinct (map fst eff)"
    using eff by (rule effective_levels_keys)
  have sizes: "\<forall>it \<in> set (item # rest). 0 \<le> it_width it \<and> 0 \<le> it_height it"
    using assms(2) by (simp add: items list_all_iff)
  have la: "map_of eff (it_id a) = Some l" and lb: "map_of eff (it_id b) = Some l"
    using assms(10,11) by (simp_all add: level_of_def eff)
  show ?thesis
    unfolding layout
    using assms(1,7,8) unfolding items
    by (intro position_items_apart [OF _ keys sizes assms(3,4) _ la _ lb assms(9)])
qed

theorem same_level_items_keep_apart_witness:
  "\<exists>pa pb. map_of [(''A'', \<lparr>pos_x = 0, pos_y = 0\<rparr>), (''B'', \<lparr>pos_x = 0, pos_y = 150\<rparr>)]
              (it_id (mk_item ''A'' 0 0 10 10)) = Some pa \<and>
           map_of [(''A'', \<lparr>pos_x = 0, pos_y = 0\<rparr>), (''B'', \<lparr>pos_x = 0, pos_y = 150\<rparr>)]
              (it_id (mk_item ''B'' 0 0 10 10)) = Some pb \<and>
           (if orientation (example_options 1) = ''horizontal''
            then pos_y pa + it_height (mk_item ''A'' 0 0 10 10) + vertical_spacing (example_options 1) - 1
                   \<le> pos_y pb \<or>
                 pos_y pb + it_height (mk_item ''B'' 0 0 10 10) + vertical_spacing (example_options 1) - 1
                   \<le> pos_y pa
            else pos_x pa + it_width (mk_item ''A'' 0 0 10 10) + horizontal_spacing (example_options 1) - 1
                   \<le> pos_x pb \<or>
                 pos_x pb + it_width (mk_item ''B'' 0 0 10 10) + horizontal_spacing (example_options 1) - 1
                   \<le> pos_x pa)"
proof -
  let ?items = "[mk_item ''A'' 0 0 10 10, mk_item ''B'' 0 0 10 10]"
  have ids: "it_id (mk_item ''A'' 0 0 10 10) = ''A''" "it_id (mk_item ''B'' 0 0 10 10) = ''B''"
    by (simp_all add: mk_item_def)
  have dist: "distinct (map it_id ?items)"
    by (simp add: mk_item_def)
  have sizes: "list_all (\<lambda>it. 0 \<le> it_width it \<and> 0 \<le> it_height it) ?items"
    by (simp add: mk_item_def)
  have hs: "0 \<le> horizontal_spacing (example_options 1)"
    and vs: "0 \<le> vertical_spacing (example_options 1)"
    by (simp_all add: example_defs)
  have opts: "example_options 1 =
      (case Some (example_options 1) of None \<Rightarrow> default_options | Some given \<Rightarrow> given)"
    by simp
  have a: "mk_item ''A'' 0 0 10 10 \<in> set ?items" and b: "mk_item ''B'' 0 0 10 10 \<in> set ?items"
    by simp_all
  have ne: "it_id (mk_item ''A'' 0 0 10 10) \<noteq> it_id (mk_item ''B'' 0 0 10 10)"
    by (simp add: ids)
  have la: "level_of ?items [\<lparr>from_id = ''A'', to_id = ''Z''\<rparr>] (example_options 1)
              (it_id (mk_item ''A'' 0 0 10 10)) = Some 0"
    by (simp add: ids level_of_def levels_with_dangling_edge)
  have lb: "level_of ?items [\<lparr>from_id = ''A'', to_id = ''Z''\<rparr>] (example_options 1)
              (it_id (mk_item ''B'' 0 0 10 10)) = Some 0"
    by (simp add: ids level_of_def levels_with_dangling_edge)
  show ?thesis
    by (rule same_level_items_keep_apart
        [OF dist sizes hs vs opts layout_with_dangling_edge a b ne la lb])
qed

end
